theory Spec2Isabelle
  imports
    Main
    "HOL-Library.Word"
    "HOL-Library.Char_ord"
    "HOL-Library.List_Lexorder"
    "HOL-Library.Product_Lexorder"
    "HOL-Library.Multiset"
begin

section \<open>The invitation lifecycle of the Digby Dolphins cloud functions\<close>

text \<open>
  A shallow embedding of \<^verbatim>\<open>functions/invitations.js\<close>: the six callable functions
  \<^verbatim>\<open>sendInvitations\<close>, \<^verbatim>\<open>resendInvitation\<close>, \<^verbatim>\<open>deleteInvitation\<close>,
  \<^verbatim>\<open>getInvitations\<close>, \<^verbatim>\<open>verifyInvitation\<close> and \<^verbatim>\<open>acceptInvitation\<close>.

  The Firestore database is explicit state: every function takes the database and
  returns it, updated, next to its outcome. What the JavaScript reads from its
  environment (the clock, the random source, the identifier of a new document, the
  store server's timestamp, the outcome of the mail transport) is an argument.
  A thrown \<^verbatim>\<open>Error\<close> is the \<open>Inl\<close> branch of a sum. Failures of the store itself
  (network, quota) are outside the model: every read and write of the store succeeds.
\<close>

subsection \<open>Timestamps\<close>

text \<open>
  A Firestore \<^verbatim>\<open>Timestamp\<close> has whole seconds and a nanosecond part.
  \<^verbatim>\<open>Timestamp.fromDate(new Date(ms))\<close> and \<^verbatim>\<open>Timestamp.now()\<close> both go through
  the millisecond count of a JavaScript date; \<^verbatim>\<open>Date.now()\<close> is an integer number of
  milliseconds.
\<close>

record timestamp =
  seconds :: int
  nanoseconds :: int

definition fromMillis :: "int \<Rightarrow> timestamp" where
  "fromMillis ms = \<lparr>seconds = ms div 1000, nanoseconds = (ms mod 1000) * 1000000\<rparr>"

text \<open>The order of two instants at full precision: \<open>a\<close> lies strictly before \<open>b\<close>.\<close>

definition before :: "timestamp \<Rightarrow> timestamp \<Rightarrow> bool" where
  "before a b \<longleftrightarrow>
     seconds a < seconds b \<or> (seconds a = seconds b \<and> nanoseconds a < nanoseconds b)"

text \<open>\<^verbatim>\<open>7 * 24 * 60 * 60 * 1000\<close>, the lifetime of an invitation in milliseconds.\<close>

definition sevenDays :: int where
  "sevenDays = 7 * 24 * 60 * 60 * 1000"

subsection \<open>Errors\<close>

text \<open>
  Every failure of the source is \<^verbatim>\<open>throw new Error(message)\<close>: an object of the one
  class \<^verbatim>\<open>Error\<close> (its \<^verbatim>\<open>name\<close>) carrying a message.
\<close>

record js_error =
  name :: string
  message :: string

definition Error :: "string \<Rightarrow> js_error" where
  "Error msg = \<lparr>name = ''Error'', message = msg\<rparr>"

text \<open>The class and the message of the error a call ended with, if it ended with one.\<close>

definition errorClass :: "js_error + 'a \<Rightarrow> string option" where
  "errorClass r = (case r of Inl e \<Rightarrow> Some (name e) | Inr _ \<Rightarrow> None)"

definition errorMessage :: "js_error + 'a \<Rightarrow> string option" where
  "errorMessage r = (case r of Inl e \<Rightarrow> Some (message e) | Inr _ \<Rightarrow> None)"

text \<open>
  \<^verbatim>\<open>try { body } catch (err) { throw new Error(`<prefix>${err.message}`) }\<close>:
  the writes the body made before it threw stay.
\<close>

definition rethrow :: "string \<Rightarrow> (js_error + 'a) \<times> 's \<Rightarrow> (js_error + 'a) \<times> 's" where
  "rethrow prefix r =
     (case fst r of
        Inl err \<Rightarrow> (Inl (Error (prefix @ message err)), snd r)
      | Inr v \<Rightarrow> r)"

text \<open>
  The functions are exported as \<^verbatim>\<open>onCall(options, handler)\<close>. The definitions below
  are the handlers; what the caller of the function receives goes through the wrapper
  of the functions framework: the value the handler returns, or an \<^verbatim>\<open>HttpsError\<close>.
  A handler's error that is not an \<^verbatim>\<open>HttpsError\<close> is logged and answered as
  \<^verbatim>\<open>HttpsError('internal', 'INTERNAL')\<close>. The handlers of this file throw
  \<^verbatim>\<open>Error\<close> only.
\<close>

record https_error =
  error_code :: string
  error_message :: string

definition onCall :: "js_error + 'a \<Rightarrow> https_error + 'a" where
  "onCall outcome =
     (case outcome of
        Inl err \<Rightarrow> Inl \<lparr>error_code = ''internal'', error_message = ''INTERNAL''\<rparr>
      | Inr v \<Rightarrow> Inr v)"

subsection \<open>The database\<close>

text \<open>
  A document of the \<^verbatim>\<open>invitations\<close> collection. \<^verbatim>\<open>sendInvitations\<close> writes
  \<^verbatim>\<open>id\<close>, \<^verbatim>\<open>email\<close>, \<^verbatim>\<open>token\<close>, \<^verbatim>\<open>status\<close>, \<^verbatim>\<open>createdAt\<close>, \<^verbatim>\<open>createdBy\<close> and
  \<^verbatim>\<open>expiresAt\<close>; the fields other functions add or read may be absent. The field
  \<^verbatim>\<open>id\<close> is \<open>inv_id\<close> here.
\<close>

record invitation =
  inv_id :: string
  email :: string
  token :: string
  status :: string
  createdAt :: timestamp
  createdBy :: string
  expiresAt :: timestamp
  updatedAt :: "timestamp option"
  acceptedAt :: "timestamp option"
  acceptedBy :: "string option"
  role :: "string option"

text \<open>A document of the \<^verbatim>\<open>users\<close> collection, as far as these functions read it.\<close>

record user =
  user_email :: string
  user_role :: "string option"

text \<open>
  A collection is the list of its documents with their identifiers, in the order of
  the identifiers: the order in which Firestore returns the result of a query that
  has no \<^verbatim>\<open>orderBy\<close>.
\<close>

type_synonym 'a collection = "(string \<times> 'a) list"

record firestore =
  users :: "user collection"
  invitations :: "invitation collection"

text \<open>
  \<^verbatim>\<open>collection.doc(id)\<close> throws for an empty identifier, with this message (the
  character \<open>0x22\<close> is the double quote). An identifier is taken to be a single
  path segment.
\<close>

definition documentPathError :: string where
  "documentPathError =
     ''Value for argument '' @ [CHR 0x22] @ ''documentPath'' @ [CHR 0x22]
       @ '' is not a valid resource path. Path must be a non-empty string.''"

text \<open>\<^verbatim>\<open>collection.doc(id).get()\<close>\<close>

definition getDoc :: "'a collection \<Rightarrow> string \<Rightarrow> 'a option" where
  "getDoc c k = map_of c k"

text \<open>\<^verbatim>\<open>collection.doc(id).set(data)\<close>: replaces the document, or creates it at its place.\<close>

fun setDoc :: "string \<Rightarrow> 'a \<Rightarrow> 'a collection \<Rightarrow> 'a collection" where
  "setDoc k v [] = [(k, v)]"
| "setDoc k v ((k', v') # c) =
     (if k = k' then (k, v) # c
      else if k < k' then (k, v) # (k', v') # c
      else (k', v') # setDoc k v c)"

text \<open>\<^verbatim>\<open>ref.update(fields)\<close> on a document that was just read.\<close>

definition updateDoc :: "string \<Rightarrow> ('a \<Rightarrow> 'a) \<Rightarrow> 'a collection \<Rightarrow> 'a collection" where
  "updateDoc k f c = map (\<lambda>(k', v). if k' = k then (k', f v) else (k', v)) c"

text \<open>\<^verbatim>\<open>collection.doc(id).delete()\<close>\<close>

definition deleteDoc :: "string \<Rightarrow> 'a collection \<Rightarrow> 'a collection" where
  "deleteDoc k c = filter (\<lambda>(k', v). k' \<noteq> k) c"

text \<open>\<^verbatim>\<open>collection.where(...).limit(1).get()\<close>: the first document that matches, if any.\<close>

definition queryFirst :: "('a \<Rightarrow> bool) \<Rightarrow> 'a collection \<Rightarrow> (string \<times> 'a) option" where
  "queryFirst P c = find (\<lambda>(k, v). P v) c"

text \<open>Document identifiers are unique in a collection, and listed in their order.\<close>

definition wellFormed :: "'a collection \<Rightarrow> bool" where
  "wellFormed c \<longleftrightarrow> sorted (map fst c) \<and> distinct (map fst c)"

subsection \<open>The token generator\<close>

text \<open>
  \<^verbatim>\<open>crypto.randomBytes(32).toString('hex')\<close>: the argument is the bytes the random
  source delivered.
\<close>

definition hexDigit :: "nat \<Rightarrow> char" where
  "hexDigit n = ''0123456789abcdef'' ! n"

definition toHex :: "8 word \<Rightarrow> string" where
  "toHex b = [hexDigit (unat b div 16), hexDigit (unat b mod 16)]"

definition generateToken :: "8 word list \<Rightarrow> string" where
  "generateToken randomBytes = concat (map toHex randomBytes)"

subsection \<open>The caller\<close>

text \<open>
  \<^verbatim>\<open>request.auth\<close>, absent for an unauthenticated call: the caller's \<^verbatim>\<open>uid\<close> and the
  \<^verbatim>\<open>role\<close> and \<^verbatim>\<open>email\<close> claims of the identity token.
\<close>

record auth =
  uid :: string
  token_role :: "string option"
  token_email :: string

text \<open>
  The check every administrative function repeats: the \<^verbatim>\<open>role\<close> claim, and when it
  is not \<^verbatim>\<open>'admin'\<close> the \<^verbatim>\<open>role\<close> of the caller's document in \<^verbatim>\<open>users\<close>.
\<close>

definition callerIsAdmin :: "auth \<Rightarrow> firestore \<Rightarrow> bool" where
  "callerIsAdmin a db =
     (if token_role a \<noteq> Some ''admin''
      then (case getDoc (users db) (uid a) of
              None \<Rightarrow> False
            | Some u \<Rightarrow> user_role u = Some ''admin'')
      else True)"

text \<open>A caller that passes both checks of an administrative function.\<close>

definition authorized :: "auth option \<Rightarrow> firestore \<Rightarrow> bool" where
  "authorized request_auth db =
     (case request_auth of None \<Rightarrow> False | Some a \<Rightarrow> callerIsAdmin a db)"

subsection \<open>sendInvitations\<close>

text \<open>
  What one iteration of the loop takes from its environment when it gets as far as
  creating an invitation: the identifier \<^verbatim>\<open>doc()\<close> generates, the random bytes of the
  token, \<^verbatim>\<open>Date.now()\<close>, the server's timestamp of the write, and the outcome of
  \<^verbatim>\<open>transporter.sendMail\<close> (the message of the error it rejects with, if it does).
\<close>

record draw =
  docId :: string
  randomBytes :: "8 word list"
  dateNow :: int
  serverTimestamp :: timestamp
  sendMailError :: "string option"

record results =
  success :: "string list"
  failed :: "(string \<times> string) list"

definition pushSuccess :: "string \<Rightarrow> results \<Rightarrow> results" where
  "pushSuccess e r = r\<lparr>success := success r @ [e]\<rparr>"

definition pushFailed :: "string \<Rightarrow> string \<Rightarrow> results \<Rightarrow> results" where
  "pushFailed e reason r = r\<lparr>failed := failed r @ [(e, reason)]\<rparr>"

text \<open>The record \<^verbatim>\<open>invitationRef.set\<close> writes.\<close>

definition newInvitation :: "auth \<Rightarrow> string option \<Rightarrow> string \<Rightarrow> draw \<Rightarrow> invitation" where
  "newInvitation a invitedBy e d =
     \<lparr>inv_id = docId d,
      email = e,
      token = generateToken (randomBytes d),
      status = ''pending'',
      createdAt = serverTimestamp d,
      createdBy = (case invitedBy of
                     None \<Rightarrow> token_email a
                   | Some s \<Rightarrow> if s = [] then token_email a else s),
      expiresAt = fromMillis (dateNow d + sevenDays),
      updatedAt = None,
      acceptedAt = None,
      acceptedBy = None,
      role = None\<rparr>"

text \<open>
  The two queries of the loop, each with \<^verbatim>\<open>limit(1)\<close>: a user with this email, and an
  invitation with this email whose status is \<^verbatim>\<open>'pending'\<close>. The second does not
  look at \<^verbatim>\<open>expiresAt\<close>.
\<close>

definition userSnapshot :: "string \<Rightarrow> firestore \<Rightarrow> (string \<times> user) option" where
  "userSnapshot e db = queryFirst (\<lambda>u. user_email u = e) (users db)"

definition invitationSnapshot :: "string \<Rightarrow> firestore \<Rightarrow> (string \<times> invitation) option" where
  "invitationSnapshot e db =
     queryFirst (\<lambda>i. email i = e \<and> status i = ''pending'') (invitations db)"

text \<open>The body of \<^verbatim>\<open>for (const email of emails)\<close>, with its \<^verbatim>\<open>try\<close>/\<^verbatim>\<open>catch\<close>.\<close>

definition processEmail ::
  "auth \<Rightarrow> string option \<Rightarrow> results \<times> firestore \<Rightarrow> string \<times> draw \<Rightarrow> results \<times> firestore" where
  "processEmail a invitedBy st ed =
     (let res = fst st; db = snd st; e = fst ed; d = snd ed in
      if userSnapshot e db \<noteq> None
      then (pushFailed e ''User already exists'' res, db)
      else if invitationSnapshot e db \<noteq> None
      then (pushFailed e ''Invitation already sent'' res, db)
      else
        let db' = db\<lparr>invitations :=
                      setDoc (docId d) (newInvitation a invitedBy e d) (invitations db)\<rparr>
        in (case sendMailError d of
              None \<Rightarrow> (pushSuccess e res, db')
            | Some msg \<Rightarrow>
                (pushFailed e (if msg = [] then ''Unknown error'' else msg) res, db')))"

fun processEmails ::
  "auth \<Rightarrow> string option \<Rightarrow> results \<times> firestore \<Rightarrow> (string \<times> draw) list \<Rightarrow> results \<times> firestore" where
  "processEmails a invitedBy st [] = st"
| "processEmails a invitedBy st (ed # eds) =
     processEmails a invitedBy (processEmail a invitedBy st ed) eds"

text \<open>
  \<^verbatim>\<open>emails\<close> comes paired with the draws of each iteration; the draws of an email
  that is rejected before the token is generated are not used.
\<close>

definition sendInvitations ::
  "auth option \<Rightarrow> (string \<times> draw) list \<Rightarrow> string option \<Rightarrow> firestore
     \<Rightarrow> (js_error + results) \<times> firestore" where
  "sendInvitations request_auth emails invitedBy db =
     (case request_auth of
        None \<Rightarrow> (Inl (Error ''Unauthorized: You must be logged in to send invitations''), db)
      | Some a \<Rightarrow>
          rethrow ''Failed to send invitations: ''
            (if \<not> callerIsAdmin a db
             then (Inl (Error ''Unauthorized: Only admins can send invitations''), db)
             else if emails = []
             then (Inl (Error ''Invalid input: emails must be a non-empty array''), db)
             else (let st = processEmails a invitedBy (\<lparr>success = [], failed = []\<rparr>, db) emails
                   in (Inr (fst st), snd st))))"

subsection \<open>resendInvitation, deleteInvitation, getInvitations\<close>

text \<open>
  \<^verbatim>\<open>resendInvitation\<close> draws the random bytes of the new token, \<^verbatim>\<open>Date.now()\<close>, the
  server's timestamp and the outcome of the mail transport (\<open>docId\<close> is not used).
\<close>

definition resendInvitation ::
  "auth option \<Rightarrow> string \<Rightarrow> draw \<Rightarrow> firestore \<Rightarrow> (js_error + bool) \<times> firestore" where
  "resendInvitation request_auth invitationId d db =
     (case request_auth of
        None \<Rightarrow> (Inl (Error ''Unauthorized: You must be logged in to resend invitations''), db)
      | Some a \<Rightarrow>
          rethrow ''Failed to resend invitation: ''
            (if \<not> callerIsAdmin a db
             then (Inl (Error ''Unauthorized: Only admins can resend invitations''), db)
             else if invitationId = []
             then (Inl (Error documentPathError), db)
             else case getDoc (invitations db) invitationId of
               None \<Rightarrow> (Inl (Error ''Invitation not found''), db)
             | Some i \<Rightarrow>
                 if status i \<noteq> ''pending''
                 then (Inl (Error ''Cannot resend an invitation that has already been accepted''), db)
                 else
                   let db' = db\<lparr>invitations :=
                                 updateDoc invitationId
                                   (\<lambda>i. i\<lparr>token := generateToken (randomBytes d),
                                          expiresAt := fromMillis (dateNow d + sevenDays),
                                          updatedAt := Some (serverTimestamp d)\<rparr>)
                                   (invitations db)\<rparr>
                   in (case sendMailError d of
                         None \<Rightarrow> (Inr True, db')
                       | Some msg \<Rightarrow> (Inl (Error msg), db'))))"

definition deleteInvitation ::
  "auth option \<Rightarrow> string \<Rightarrow> firestore \<Rightarrow> (js_error + bool) \<times> firestore" where
  "deleteInvitation request_auth invitationId db =
     (case request_auth of
        None \<Rightarrow> (Inl (Error ''Unauthorized: You must be logged in to delete invitations''), db)
      | Some a \<Rightarrow>
          rethrow ''Failed to delete invitation: ''
            (if \<not> callerIsAdmin a db
             then (Inl (Error ''Unauthorized: Only admins can delete invitations''), db)
             else if invitationId = []
             then (Inl (Error documentPathError), db)
             else (Inr True, db\<lparr>invitations := deleteDoc invitationId (invitations db)\<rparr>)))"

text \<open>
  \<^verbatim>\<open>orderBy('createdAt', 'desc')\<close>: newest first, documents with the same timestamp
  by descending identifier.
\<close>

definition newestFirst :: "invitation collection \<Rightarrow> invitation list" where
  "newestFirst c =
     map snd (rev (sort_key (\<lambda>(k, i). (seconds (createdAt i), nanoseconds (createdAt i), k)) c))"

definition getInvitations ::
  "auth option \<Rightarrow> firestore \<Rightarrow> (js_error + invitation list) \<times> firestore" where
  "getInvitations request_auth db =
     (case request_auth of
        None \<Rightarrow> (Inl (Error ''Unauthorized: You must be logged in to view invitations''), db)
      | Some a \<Rightarrow>
          rethrow ''Failed to get invitations: ''
            (if \<not> callerIsAdmin a db
             then (Inl (Error ''Unauthorized: Only admins can view invitations''), db)
             else (Inr (newestFirst (invitations db)), db)))"

subsection \<open>verifyInvitation, acceptInvitation\<close>

text \<open>
  The answer of \<^verbatim>\<open>verifyInvitation\<close>: \<^verbatim>\<open>{valid: true, invitation: {id, email, role}}\<close>
  or \<^verbatim>\<open>{valid: false, error}\<close>.
\<close>

datatype verification =
  Valid string string string
  | NotValid string

definition valid :: "(js_error + verification) \<Rightarrow> bool" where
  "valid r = (case r of Inr (Valid i e ro) \<Rightarrow> True | _ \<Rightarrow> False)"

text \<open>\<^verbatim>\<open>invitation.role || 'supporter'\<close>\<close>

definition roleOrSupporter :: "invitation \<Rightarrow> string" where
  "roleOrSupporter i =
     (case role i of None \<Rightarrow> ''supporter'' | Some r \<Rightarrow> if r = [] then ''supporter'' else r)"

text \<open>The query of \<^verbatim>\<open>verifyInvitation\<close>: three equality filters and \<^verbatim>\<open>limit(1)\<close>.\<close>

definition pendingMatch :: "string \<Rightarrow> string \<Rightarrow> invitation \<Rightarrow> bool" where
  "pendingMatch em tok i \<longleftrightarrow> email i = em \<and> token i = tok \<and> status i = ''pending''"

definition findPending :: "string \<Rightarrow> string \<Rightarrow> firestore \<Rightarrow> (string \<times> invitation) option" where
  "findPending em tok db = queryFirst (pendingMatch em tok) (invitations db)"

text \<open>\<open>clock\<close> is the reading of \<^verbatim>\<open>Timestamp.now()\<close> in milliseconds.\<close>

definition verifyInvitation ::
  "string \<Rightarrow> string \<Rightarrow> int \<Rightarrow> firestore \<Rightarrow> (js_error + verification) \<times> firestore" where
  "verifyInvitation tok em clock db =
     (if tok = [] \<or> em = []
      then (Inl (Error ''Invalid request: token and email are required''), db)
      else case findPending em tok db of
        None \<Rightarrow> (Inr (NotValid ''Invalid or expired invitation''), db)
      | Some (k, i) \<Rightarrow>
          if seconds (expiresAt i) < seconds (fromMillis clock)
          then (Inr (NotValid ''Invitation has expired''), db)
          else (Inr (Valid (inv_id i) (email i) (roleOrSupporter i)), db))"

definition acceptInvitation ::
  "string \<Rightarrow> string \<Rightarrow> int \<Rightarrow> timestamp \<Rightarrow> firestore \<Rightarrow> (js_error + bool) \<times> firestore" where
  "acceptInvitation invitationId userId clock serverTime db =
     (if invitationId = [] \<or> userId = []
      then (Inl (Error ''Invalid request: invitationId and userId are required''), db)
      else
        rethrow ''Failed to accept invitation: ''
          (case getDoc (invitations db) invitationId of
             None \<Rightarrow> (Inl (Error ''Invitation not found''), db)
           | Some i \<Rightarrow>
               if status i \<noteq> ''pending''
               then (Inl (Error ''Invitation has already been used''), db)
               else if seconds (expiresAt i) < seconds (fromMillis clock)
               then (Inl (Error ''Invitation has expired''), db)
               else (Inr True,
                     db\<lparr>invitations :=
                          updateDoc invitationId
                            (\<lambda>i. i\<lparr>status := ''accepted'',
                                   acceptedAt := Some serverTime,
                                   acceptedBy := Some userId\<rparr>)
                            (invitations db)\<rparr>)))"

subsection \<open>The specification's wording\<close>

text \<open>
  ``A record exists with matching email and token, status pending, whose
  \<^verbatim>\<open>expiresAt\<close> has not passed'': some record of the store, its expiry compared with
  the clock at full precision.
\<close>

definition unexpiredMatch :: "string \<Rightarrow> string \<Rightarrow> int \<Rightarrow> firestore \<Rightarrow> bool" where
  "unexpiredMatch tok em clock db =
     list_ex (\<lambda>(k, i). pendingMatch em tok i \<and> \<not> before (expiresAt i) (fromMillis clock))
       (invitations db)"

text \<open>``\<open>t\<close> + \<open>n\<close> days''\<close>

definition plusDays :: "timestamp \<Rightarrow> int \<Rightarrow> timestamp" where
  "plusDays t n = t\<lparr>seconds := seconds t + n * 24 * 60 * 60\<rparr>"

subsection \<open>A small database\<close>

definition coach :: auth where
  "coach = \<lparr>uid = ''u1'', token_role = Some ''admin'', token_email = ''coach@example.org''\<rparr>"

definition parent :: auth where
  "parent = \<lparr>uid = ''u2'', token_role = None, token_email = ''parent@example.org''\<rparr>"

definition exampleInvitation :: invitation where
  "exampleInvitation =
     \<lparr>inv_id = ''inv1'', email = ''swimmer@example.org'', token = ''c0ffee'',
      status = ''pending'', createdAt = fromMillis 0, createdBy = ''coach@example.org'',
      expiresAt = fromMillis 100200, updatedAt = None, acceptedAt = None,
      acceptedBy = None, role = None\<rparr>"

definition exampleDb :: firestore where
  "exampleDb =
     \<lparr>users = [(''u1'', \<lparr>user_email = ''coach@example.org'', user_role = Some ''admin''\<rparr>),
               (''u2'', \<lparr>user_email = ''parent@example.org'', user_role = Some ''supporter''\<rparr>)],
      invitations = [(''inv1'', exampleInvitation)]\<rparr>"

definition exampleDraw :: draw where
  "exampleDraw =
     \<lparr>docId = ''inv2'', randomBytes = [0xab, 0x01], dateNow = 5000,
      serverTimestamp = fromMillis 5250, sendMailError = None\<rparr>"

definition bouncedDraw :: draw where
  "bouncedDraw =
     \<lparr>docId = ''inv5'', randomBytes = [0x7f, 0x10], dateNow = 5000,
      serverTimestamp = fromMillis 5250, sendMailError = Some ''Mailbox unavailable''\<rparr>"

text \<open>A draw four seconds after \<open>exampleDraw\<close>, for a batch whose iterations read different clocks.\<close>

definition laterDraw :: draw where
  "laterDraw =
     \<lparr>docId = ''inv6'', randomBytes = [0x3c, 0x4d], dateNow = 9000,
      serverTimestamp = fromMillis 9100, sendMailError = None\<rparr>"

text \<open>
  An invitation whose token was generated from 32 bytes, and a resend for which the
  random source delivers the same 32 bytes.
\<close>

definition issuedBytes :: "8 word list" where
  "issuedBytes =
     [0xc0, 0xff, 0xee, 0x00, 0x01, 0x02, 0x03, 0x04, 0x05, 0x06, 0x07, 0x08, 0x09, 0x0a,
      0x0b, 0x0c, 0x0d, 0x0e, 0x0f, 0x10, 0x11, 0x12, 0x13, 0x14, 0x15, 0x16, 0x17, 0x18,
      0x19, 0x1a, 0x1b, 0x1c]"

definition issuedToken :: string where
  "issuedToken = ''c0ffee000102030405060708090a0b0c0d0e0f101112131415161718191a1b1c''"

definition issuedDb :: firestore where
  "issuedDb =
     exampleDb\<lparr>invitations := [(''inv1'', exampleInvitation\<lparr>token := issuedToken\<rparr>)]\<rparr>"

definition repeatedDraw :: draw where
  "repeatedDraw = exampleDraw\<lparr>randomBytes := issuedBytes\<rparr>"

text \<open>
  A batch of four: an email with a pending invitation, an email with an account, a new
  email, and a new email whose message the transport rejects.
\<close>

definition exampleBatch :: "(string \<times> draw) list" where
  "exampleBatch =
     [(''swimmer@example.org'', exampleDraw\<lparr>docId := ''inv3''\<rparr>),
      (''coach@example.org'', exampleDraw\<lparr>docId := ''inv4''\<rparr>),
      (''new@swim.org'', exampleDraw),
      (''lost@swim.org'', bouncedDraw)]"

section \<open>Properties\<close>

subsection \<open>Basic facts\<close>

lemma rethrow_Inl [simp]: "rethrow p (Inl e, s) = (Inl (Error (p @ message e)), s)"
  by (simp add: rethrow_def)

lemma rethrow_Inr [simp]: "rethrow p (Inr v, s) = (Inr v, s)"
  by (simp add: rethrow_def)

lemma message_Error [simp]: "message (Error m) = m"
  by (simp add: Error_def)

lemma name_Error [simp]: "name (Error m) = ''Error''"
  by (simp add: Error_def)

lemma Error_inject [simp]: "Error m = Error m' \<longleftrightarrow> m = m'"
  by (simp add: Error_def)

lemma getDoc_updateDoc:
  "getDoc (updateDoc k f c) k' = (if k' = k then map_option f (getDoc c k) else getDoc c k')"
  unfolding getDoc_def updateDoc_def by (induction c) auto

lemma queryFirst_None: "queryFirst P c = None \<longleftrightarrow> (\<forall>(k, v) \<in> set c. \<not> P v)"
  unfolding queryFirst_def case_prod_unfold find_None_iff by auto

lemma queryFirst_Some:
  "queryFirst P c = Some (k, v) \<longleftrightarrow>
     (\<exists>n < length c. c ! n = (k, v) \<and> P v \<and> (\<forall>m < n. \<not> P (snd (c ! m))))"
  unfolding queryFirst_def case_prod_unfold find_Some_iff by (metis snd_conv)

subsection \<open>The order of a collection\<close>

text \<open>Writes, updates and deletions keep a collection in the order of its identifiers.\<close>

lemma keys_setDoc: "fst ` set (setDoc k v c) = insert k (fst ` set c)"
proof (induction c)
  case Nil
  show ?case by simp
next
  case (Cons p c)
  obtain k' v' where p: "p = (k', v')" by (cases p)
  show ?case unfolding p using Cons.IH by (simp add: insert_commute)
qed

lemma wellFormed_setDoc:
  assumes "wellFormed c"
  shows "wellFormed (setDoc k v c)"
  using assms unfolding wellFormed_def
proof (induction c)
  case Nil
  show ?case by simp
next
  case (Cons p c)
  obtain k' v' where p: "p = (k', v')" by (cases p)
  from Cons.prems have tail: "sorted (map fst c) \<and> distinct (map fst c)"
    and above: "\<forall>x \<in> fst ` set c. k' \<le> x" and new: "k' \<notin> fst ` set c"
    by (auto simp: p)
  consider "k = k'" | "k < k'" | "k' < k" by (metis linorder_less_linear)
  then show ?case
  proof cases
    case 1
    then show ?thesis using Cons.prems by (simp add: p)
  next
    case 2
    then have "\<forall>x \<in> fst ` set c. k < x" using above by auto
    then show ?thesis using 2 Cons.prems by (auto simp: p)
  next
    case 3
    have "sorted (map fst (setDoc k v c)) \<and> distinct (map fst (setDoc k v c))"
      using Cons.IH tail by simp
    moreover have "\<forall>x \<in> fst ` set (setDoc k v c). k' \<le> x"
      using above 3 by (simp add: keys_setDoc)
    moreover have "k' \<notin> fst ` set (setDoc k v c)"
      using new 3 by (simp add: keys_setDoc)
    moreover have "\<not> k < k'" "k \<noteq> k'" using 3 by auto
    ultimately show ?thesis by (simp add: p)
  qed
qed

lemma wellFormed_updateDoc: "wellFormed c \<Longrightarrow> wellFormed (updateDoc k f c)"
proof -
  have "map fst (updateDoc k f c) = map fst c"
    by (induction c) (auto simp: updateDoc_def)
  then show "wellFormed c \<Longrightarrow> wellFormed (updateDoc k f c)"
    by (simp add: wellFormed_def)
qed

lemma wellFormed_deleteDoc: "wellFormed c \<Longrightarrow> wellFormed (deleteDoc k c)"
  unfolding wellFormed_def deleteDoc_def
  by (induction c) (auto simp: sorted_wrt_filter distinct_map_filter)

subsection \<open>verifyInvitation\<close>

text \<open>
  C7. \<open>verifyInvitation\<close> writes nothing: the database it leaves is the database it
  was given, so a second call with the same inputs gives the same answer, and at any
  later clock reading the answer it would have given without the first call.
\<close>

theorem verifyInvitation_frame:
  "snd (verifyInvitation tok em clock db) = db
   \<and> verifyInvitation tok em clock (snd (verifyInvitation tok em clock db))
       = verifyInvitation tok em clock db
   \<and> fst (verifyInvitation tok em clock' (snd (verifyInvitation tok em clock db)))
       = fst (verifyInvitation tok em clock' db)"
proof -
  have "snd (verifyInvitation tok em clock db) = db"
    by (simp add: verifyInvitation_def split: option.splits)
  then show ?thesis by simp
qed

text \<open>
  C1, as stated, fails: the invitation of the small database expires at 100.2 s; at
  100.9 s its expiry has passed, and no record of the store is an unexpired match, yet
  \<open>verifyInvitation\<close> answers \<^verbatim>\<open>valid: true\<close>, because it compares whole seconds.
\<close>

theorem verifyInvitation_whole_seconds:
  "valid (fst (verifyInvitation ''c0ffee'' ''swimmer@example.org'' 100900 exampleDb))
   \<and> \<not> unexpiredMatch ''c0ffee'' ''swimmer@example.org'' 100900 exampleDb"
  by (simp add: verifyInvitation_def findPending_def queryFirst_def exampleDb_def
      exampleInvitation_def valid_def unexpiredMatch_def before_def fromMillis_def
      pendingMatch_def)

lemma verifyInvitation_no_match:
  assumes "tok \<noteq> []" "em \<noteq> []" "findPending em tok db = None"
  shows "fst (verifyInvitation tok em clock db) = Inr (NotValid ''Invalid or expired invitation'')"
  using assms by (simp add: verifyInvitation_def)

lemma verifyInvitation_match:
  assumes "tok \<noteq> []" "em \<noteq> []" "findPending em tok db = Some (k, i)"
  shows "fst (verifyInvitation tok em clock db) =
           (if seconds (expiresAt i) < seconds (fromMillis clock)
            then Inr (NotValid ''Invitation has expired'')
            else Inr (Valid (inv_id i) (email i) (roleOrSupporter i)))"
  using assms by (simp add: verifyInvitation_def)

lemma findPending_first:
  "findPending em tok db = Some (k, i) \<longleftrightarrow>
     (\<exists>n < length (invitations db). invitations db ! n = (k, i) \<and> pendingMatch em tok i
        \<and> (\<forall>m < n. \<not> pendingMatch em tok (snd (invitations db ! m))))"
  unfolding findPending_def queryFirst_Some ..

lemma findPending_none:
  "findPending em tok db = None \<longleftrightarrow>
     (\<forall>n < length (invitations db). \<not> pendingMatch em tok (snd (invitations db ! n)))"
proof
  assume "findPending em tok db = None"
  then have "\<forall>(k, i) \<in> set (invitations db). \<not> pendingMatch em tok i"
    by (simp add: findPending_def queryFirst_None)
  then show "\<forall>n < length (invitations db). \<not> pendingMatch em tok (snd (invitations db ! n))"
    using nth_mem by fastforce
next
  assume "\<forall>n < length (invitations db). \<not> pendingMatch em tok (snd (invitations db ! n))"
  then have "\<forall>(k, i) \<in> set (invitations db). \<not> pendingMatch em tok i"
    by (metis (mono_tags, lifting) case_prodI2 in_set_conv_nth snd_conv)
  then show "findPending em tok db = None"
    by (simp add: findPending_def queryFirst_None)
qed

text \<open>
  C1, amended. For a non-empty token and email, \<open>verifyInvitation\<close> answers
  \<^verbatim>\<open>valid: true\<close> exactly when the first record of the store whose email and token
  equal the inputs and whose status is \<^verbatim>\<open>'pending'\<close> exists and the seconds of its
  \<^verbatim>\<open>expiresAt\<close> are not below the seconds of the clock. In every other case it fails:
  it throws ``Invalid request'' for an empty token or email; otherwise it answers
  \<^verbatim>\<open>valid: false\<close>, with ``Invalid or expired invitation'' when no record matches
  and with ``Invitation has expired'' when the seconds of the first match's
  \<^verbatim>\<open>expiresAt\<close> are below those of the clock. On success it returns the
  \<^verbatim>\<open>id\<close> and \<^verbatim>\<open>email\<close> of that record and its role, or \<^verbatim>\<open>'supporter'\<close>.
\<close>

theorem verifyInvitation_valid_iff:
  "(valid (fst (verifyInvitation tok em clock db)) \<longleftrightarrow>
      tok \<noteq> [] \<and> em \<noteq> [] \<and>
      (\<exists>n < length (invitations db).
         pendingMatch em tok (snd (invitations db ! n))
         \<and> (\<forall>m < n. \<not> pendingMatch em tok (snd (invitations db ! m)))
         \<and> seconds (fromMillis clock) \<le> seconds (expiresAt (snd (invitations db ! n)))))
   \<and> (tok = [] \<or> em = [] \<longrightarrow>
        fst (verifyInvitation tok em clock db) =
          Inl (Error ''Invalid request: token and email are required''))
   \<and> (tok \<noteq> [] \<and> em \<noteq> []
        \<and> (\<forall>n < length (invitations db). \<not> pendingMatch em tok (snd (invitations db ! n))) \<longrightarrow>
        fst (verifyInvitation tok em clock db) = Inr (NotValid ''Invalid or expired invitation''))
   \<and> (tok \<noteq> [] \<and> em \<noteq> [] \<and> n < length (invitations db)
        \<and> pendingMatch em tok (snd (invitations db ! n))
        \<and> (\<forall>m < n. \<not> pendingMatch em tok (snd (invitations db ! m))) \<longrightarrow>
        fst (verifyInvitation tok em clock db) =
          (if seconds (expiresAt (snd (invitations db ! n))) < seconds (fromMillis clock)
           then Inr (NotValid ''Invitation has expired'')
           else Inr (Valid (inv_id (snd (invitations db ! n))) (email (snd (invitations db ! n)))
                       (roleOrSupporter (snd (invitations db ! n))))))"
  (is "(?L \<longleftrightarrow> ?E1 \<and> ?E2 \<and> ?R) \<and> ?T \<and> ?N \<and> ?M")
proof -
  have first_unique: "n1 = n2"
    if "pendingMatch em tok (snd (invitations db ! n1))"
      "\<forall>m < n1. \<not> pendingMatch em tok (snd (invitations db ! m))"
      "pendingMatch em tok (snd (invitations db ! n2))"
      "\<forall>m < n2. \<not> pendingMatch em tok (snd (invitations db ! m))" for n1 n2 :: nat
  proof (rule ccontr)
    assume "n1 \<noteq> n2"
    then consider "n1 < n2" | "n2 < n1" by linarith
    then show False using that by cases auto
  qed
  have T: ?T by (auto simp: verifyInvitation_def)
  have N: ?N
  proof
    assume a: "tok \<noteq> [] \<and> em \<noteq> []
        \<and> (\<forall>n < length (invitations db). \<not> pendingMatch em tok (snd (invitations db ! n)))"
    then have "findPending em tok db = None" unfolding findPending_none by blast
    with a show "fst (verifyInvitation tok em clock db) = Inr (NotValid ''Invalid or expired invitation'')"
      by (simp add: verifyInvitation_no_match)
  qed
  have M: ?M
  proof
    assume a: "tok \<noteq> [] \<and> em \<noteq> [] \<and> n < length (invitations db)
        \<and> pendingMatch em tok (snd (invitations db ! n))
        \<and> (\<forall>m < n. \<not> pendingMatch em tok (snd (invitations db ! m)))"
    obtain k i where ki: "invitations db ! n = (k, i)" by (cases "invitations db ! n")
    with a have "findPending em tok db = Some (k, i)"
      unfolding findPending_first by (intro exI [of _ n]) simp
    with a have "fst (verifyInvitation tok em clock db) =
           (if seconds (expiresAt i) < seconds (fromMillis clock)
            then Inr (NotValid ''Invitation has expired'')
            else Inr (Valid (inv_id i) (email i) (roleOrSupporter i)))"
      by (simp add: verifyInvitation_match)
    then show "fst (verifyInvitation tok em clock db) =
          (if seconds (expiresAt (snd (invitations db ! n))) < seconds (fromMillis clock)
           then Inr (NotValid ''Invitation has expired'')
           else Inr (Valid (inv_id (snd (invitations db ! n))) (email (snd (invitations db ! n)))
                       (roleOrSupporter (snd (invitations db ! n)))))"
      by (simp add: ki)
  qed
  have iff: "?L \<longleftrightarrow> ?E1 \<and> ?E2 \<and> ?R"
  proof (cases "tok = [] \<or> em = []")
    case True
    then show ?thesis by (auto simp: verifyInvitation_def valid_def)
  next
    case False
    then have ne: "tok \<noteq> []" "em \<noteq> []" by simp_all
    show ?thesis
    proof (cases "findPending em tok db")
      case None
      then have "\<not> ?R" unfolding findPending_none by blast
      moreover have "fst (verifyInvitation tok em clock db) = Inr (NotValid ''Invalid or expired invitation'')"
        using verifyInvitation_no_match [OF ne None] .
      ultimately show ?thesis by (simp add: valid_def)
    next
      case (Some p)
      obtain k i where p: "p = (k, i)" by (cases p)
      from Some obtain n0 where n0: "n0 < length (invitations db)" "invitations db ! n0 = (k, i)"
        "pendingMatch em tok i" "\<forall>m < n0. \<not> pendingMatch em tok (snd (invitations db ! m))"
        unfolding p findPending_first by blast
      have res: "fst (verifyInvitation tok em clock db) =
             (if seconds (expiresAt i) < seconds (fromMillis clock)
              then Inr (NotValid ''Invitation has expired'')
              else Inr (Valid (inv_id i) (email i) (roleOrSupporter i)))"
        using verifyInvitation_match [OF ne] Some p by simp
      have R: "?R \<longleftrightarrow> seconds (fromMillis clock) \<le> seconds (expiresAt i)"
      proof
        assume ?R
        then obtain n' where n': "n' < length (invitations db)"
          "pendingMatch em tok (snd (invitations db ! n'))"
          "\<forall>m < n'. \<not> pendingMatch em tok (snd (invitations db ! m))"
          "seconds (fromMillis clock) \<le> seconds (expiresAt (snd (invitations db ! n')))"
          by blast
        have "n' = n0" using first_unique [of n' n0] n' n0 by simp
        with n0 n' show "seconds (fromMillis clock) \<le> seconds (expiresAt i)" by simp
      next
        assume "seconds (fromMillis clock) \<le> seconds (expiresAt i)"
        with n0 show ?R by (intro exI [of _ n0]) simp
      qed
      show ?thesis unfolding R res using ne by (simp add: valid_def)
    qed
  qed
  from iff T N M show ?thesis by blast
qed

text \<open>
  The invitation of the small database is still valid at 100.9 s and expired at 101 s;
  another token matches nothing, and an empty token is refused.
\<close>

theorem verifyInvitation_valid_iff_witness:
  "valid (fst (verifyInvitation ''c0ffee'' ''swimmer@example.org'' 100900 exampleDb))
   \<and> fst (verifyInvitation ''c0ffee'' ''swimmer@example.org'' 100900 exampleDb)
       = Inr (Valid ''inv1'' ''swimmer@example.org'' ''supporter'')
   \<and> fst (verifyInvitation ''c0ffee'' ''swimmer@example.org'' 101000 exampleDb)
       = Inr (NotValid ''Invitation has expired'')
   \<and> fst (verifyInvitation ''decaf0'' ''swimmer@example.org'' 100900 exampleDb)
       = Inr (NotValid ''Invalid or expired invitation'')
   \<and> fst (verifyInvitation [] ''swimmer@example.org'' 100900 exampleDb)
       = Inl (Error ''Invalid request: token and email are required'')"
proof -
  have inv: "invitations exampleDb = [(''inv1'', exampleInvitation)]"
    by (simp add: exampleDb_def)
  have hit: "pendingMatch ''swimmer@example.org'' ''c0ffee'' exampleInvitation"
    by (simp add: pendingMatch_def exampleInvitation_def)
  have miss: "\<not> pendingMatch ''swimmer@example.org'' ''decaf0'' exampleInvitation"
    by (simp add: pendingMatch_def exampleInvitation_def)
  have early: "fst (verifyInvitation ''c0ffee'' ''swimmer@example.org'' 100900 exampleDb)
       = Inr (Valid ''inv1'' ''swimmer@example.org'' ''supporter'')"
    using verifyInvitation_valid_iff [of "''c0ffee''" "''swimmer@example.org''" 100900 exampleDb 0]
      hit
    by (simp add: inv) (simp add: exampleInvitation_def fromMillis_def roleOrSupporter_def)
  have late: "fst (verifyInvitation ''c0ffee'' ''swimmer@example.org'' 101000 exampleDb)
       = Inr (NotValid ''Invitation has expired'')"
    using verifyInvitation_valid_iff [of "''c0ffee''" "''swimmer@example.org''" 101000 exampleDb 0]
      hit
    by (simp add: inv) (simp add: exampleInvitation_def fromMillis_def)
  have other: "fst (verifyInvitation ''decaf0'' ''swimmer@example.org'' 100900 exampleDb)
       = Inr (NotValid ''Invalid or expired invitation'')"
    using verifyInvitation_valid_iff [of "''decaf0''" "''swimmer@example.org''" 100900 exampleDb 0]
      miss
    by (simp add: inv)
  have empty: "fst (verifyInvitation [] ''swimmer@example.org'' 100900 exampleDb)
       = Inl (Error ''Invalid request: token and email are required'')"
    using verifyInvitation_valid_iff [of "[]" "''swimmer@example.org''" 100900 exampleDb 0]
    by simp
  from early have "valid (fst (verifyInvitation ''c0ffee'' ''swimmer@example.org'' 100900 exampleDb))"
    by (simp add: valid_def)
  with early late other empty show ?thesis by simp
qed

subsection \<open>acceptInvitation\<close>

lemma acceptInvitation_success:
  assumes "acceptInvitation invitationId userId clock serverTime db = (Inr True, db')"
  shows "invitationId \<noteq> [] \<and> userId \<noteq> []
     \<and> (\<exists>i. getDoc (invitations db) invitationId = Some i \<and> status i = ''pending''
            \<and> \<not> seconds (expiresAt i) < seconds (fromMillis clock))
     \<and> db' = db\<lparr>invitations :=
                   updateDoc invitationId
                     (\<lambda>i. i\<lparr>status := ''accepted'', acceptedAt := Some serverTime,
                            acceptedBy := Some userId\<rparr>)
                     (invitations db)\<rparr>"
  using assms
  by (auto simp: acceptInvitation_def rethrow_def split: if_splits option.splits)

text \<open>
  C3. A successful \<open>acceptInvitation\<close> finds the invitation pending and leaves it with
  \<^verbatim>\<open>status = 'accepted'\<close>, \<^verbatim>\<open>acceptedAt\<close> the server's timestamp of the write and
  \<^verbatim>\<open>acceptedBy\<close> the supplied user. Every later call on the same identifier fails and
  changes nothing; a call that carries a user identifier fails with
  ``Invitation has already been used''.
\<close>

theorem acceptInvitation_at_most_once:
  assumes "acceptInvitation invitationId userId clock serverTime db = (Inr True, db')"
  shows "(\<exists>i. getDoc (invitations db) invitationId = Some i \<and> status i = ''pending''
            \<and> getDoc (invitations db') invitationId =
                Some (i\<lparr>status := ''accepted'', acceptedAt := Some serverTime,
                        acceptedBy := Some userId\<rparr>))
     \<and> fst (acceptInvitation invitationId userId' clock' serverTime' db') \<noteq> Inr True
     \<and> snd (acceptInvitation invitationId userId' clock' serverTime' db') = db'
     \<and> (userId' \<noteq> [] \<longrightarrow>
          fst (acceptInvitation invitationId userId' clock' serverTime' db') =
            Inl (Error ''Failed to accept invitation: Invitation has already been used''))"
proof -
  let ?f = "\<lambda>i. i\<lparr>status := ''accepted'', acceptedAt := Some serverTime,
                    acceptedBy := Some userId\<rparr>"
  from acceptInvitation_success [OF assms] obtain i where
    ne: "invitationId \<noteq> []" and i: "getDoc (invitations db) invitationId = Some i"
    and p: "status i = ''pending''"
    and db': "db' = db\<lparr>invitations := updateDoc invitationId ?f (invitations db)\<rparr>"
    by blast
  have after: "getDoc (invitations db') invitationId = Some (?f i)"
    by (simp add: db' getDoc_updateDoc i)
  have again: "acceptInvitation invitationId userId' clock' serverTime' db' =
      (if userId' = []
       then (Inl (Error ''Invalid request: invitationId and userId are required''), db')
       else (Inl (Error ''Failed to accept invitation: Invitation has already been used''), db'))"
    using ne after by (simp add: acceptInvitation_def)
  show ?thesis using i p after again by simp
qed

text \<open>The invitation of the small database, accepted by one user and then by a second.\<close>

theorem acceptInvitation_at_most_once_witness:
  "fst (acceptInvitation ''inv1'' ''uid123'' 5000 (fromMillis 5250) exampleDb) = Inr True
   \<and> map_option status
       (getDoc (invitations (snd (acceptInvitation ''inv1'' ''uid123'' 5000 (fromMillis 5250) exampleDb)))
          ''inv1'') = Some ''accepted''
   \<and> fst (acceptInvitation ''inv1'' ''uid456'' 6000 (fromMillis 6250)
            (snd (acceptInvitation ''inv1'' ''uid123'' 5000 (fromMillis 5250) exampleDb)))
       = Inl (Error ''Failed to accept invitation: Invitation has already been used'')"
proof -
  let ?db' = "snd (acceptInvitation ''inv1'' ''uid123'' 5000 (fromMillis 5250) exampleDb)"
  have okf: "fst (acceptInvitation ''inv1'' ''uid123'' 5000 (fromMillis 5250) exampleDb) = Inr True"
    by (simp add: acceptInvitation_def exampleDb_def exampleInvitation_def getDoc_def
        fromMillis_def)
  then have ok: "acceptInvitation ''inv1'' ''uid123'' 5000 (fromMillis 5250) exampleDb = (Inr True, ?db')"
    by (metis prod.collapse)
  from acceptInvitation_at_most_once [OF ok, of "''uid456''" 6000 "fromMillis 6250"] okf
  show ?thesis by auto
qed

subsection \<open>An expired pending invitation blocks a new one\<close>

text \<open>
  C10. The pending-invitation check of \<open>sendInvitations\<close> does not read \<^verbatim>\<open>expiresAt\<close>:
  an email without an account that has a pending invitation, expired or not, is
  reported as failed with ``Invitation already sent'', and the store stays as it was,
  so the next attempt meets the same record.
\<close>

theorem sendInvitations_blocked_by_pending:
  assumes "callerIsAdmin a db"
    and "userSnapshot e db = None"
    and "(k, i) \<in> set (invitations db)"
    and "email i = e" and "status i = ''pending''"
  shows "sendInvitations (Some a) [(e, d)] invitedBy db =
           (Inr \<lparr>success = [], failed = [(e, ''Invitation already sent'')]\<rparr>, db)"
proof -
  have "invitationSnapshot e db \<noteq> None"
    using assms(3-5) by (auto simp: invitationSnapshot_def queryFirst_None)
  then show ?thesis
    using assms(1,2)
    by (simp add: sendInvitations_def processEmail_def pushFailed_def)
qed

text \<open>The invitation of the small database expired at 100.2 s; the call is made at 900 s.\<close>

theorem sendInvitations_blocked_by_pending_witness:
  "before (expiresAt exampleInvitation) (fromMillis (dateNow (exampleDraw\<lparr>dateNow := 900000\<rparr>)))
   \<and> sendInvitations (Some coach) [(''swimmer@example.org'', exampleDraw\<lparr>dateNow := 900000\<rparr>)]
       None exampleDb =
       (Inr \<lparr>success = [], failed = [(''swimmer@example.org'', ''Invitation already sent'')]\<rparr>,
        exampleDb)"
proof -
  have 1: "callerIsAdmin coach exampleDb"
    by (simp add: callerIsAdmin_def coach_def)
  have 2: "userSnapshot ''swimmer@example.org'' exampleDb = None"
    by (simp add: userSnapshot_def queryFirst_def exampleDb_def)
  have 3: "(''inv1'', exampleInvitation) \<in> set (invitations exampleDb)"
    by (simp add: exampleDb_def)
  have 4: "email exampleInvitation = ''swimmer@example.org''"
    and 5: "status exampleInvitation = ''pending''"
    by (simp_all add: exampleInvitation_def)
  have 6: "before (expiresAt exampleInvitation) (fromMillis (dateNow (exampleDraw\<lparr>dateNow := 900000\<rparr>)))"
    by (simp add: exampleInvitation_def before_def fromMillis_def)
  from sendInvitations_blocked_by_pending [OF 1 2 3 4 5] 6 show ?thesis by simp
qed

subsection \<open>resendInvitation\<close>

lemma queryFirst_updateDoc_hit:
  assumes "getDoc c k = Some i" and "\<forall>(k', j) \<in> set c. k' \<noteq> k \<longrightarrow> \<not> P j" and "P (f i)"
  shows "queryFirst P (updateDoc k f c) = Some (k, f i)"
  using assms unfolding getDoc_def queryFirst_def updateDoc_def
  by (induction c) (auto split: if_splits)

lemma queryFirst_updateDoc_miss:
  assumes "\<forall>(k', j) \<in> set c. k' \<noteq> k \<longrightarrow> \<not> P j" and "\<forall>j. \<not> P (f j)"
  shows "queryFirst P (updateDoc k f c) = None"
  using assms unfolding queryFirst_def updateDoc_def
  by (induction c) (auto split: if_splits)

lemma toHex_nonempty: "toHex b \<noteq> []"
  by (simp add: toHex_def)

lemma generateToken_nonempty: "bytes \<noteq> [] \<Longrightarrow> generateToken bytes \<noteq> []"
  by (cases bytes) (simp_all add: generateToken_def toHex_nonempty)

lemma resendInvitation_success:
  assumes "resendInvitation request_auth invitationId d db = (Inr True, db')"
  shows "authorized request_auth db
     \<and> (\<exists>i. getDoc (invitations db) invitationId = Some i \<and> status i = ''pending'')
     \<and> sendMailError d = None
     \<and> db' = db\<lparr>invitations :=
                   updateDoc invitationId
                     (\<lambda>i. i\<lparr>token := generateToken (randomBytes d),
                            expiresAt := fromMillis (dateNow d + sevenDays),
                            updatedAt := Some (serverTimestamp d)\<rparr>)
                     (invitations db)\<rparr>"
  using assms
  by (auto simp: resendInvitation_def rethrow_def authorized_def Let_def
      split: if_splits option.splits)

text \<open>The hexadecimal encoding loses nothing: different bytes give different tokens.\<close>

lemma hexDigit_inject:
  assumes "n < 16" and "m < 16" and "hexDigit n = hexDigit m"
  shows "n = m"
proof -
  have "distinct ''0123456789abcdef''" by simp
  moreover have "length ''0123456789abcdef'' = 16" by simp
  ultimately show ?thesis
    using assms unfolding hexDigit_def by (simp add: nth_eq_iff_index_eq)
qed

lemma toHex_inject:
  assumes "toHex a = toHex b"
  shows "a = b"
proof -
  have a: "unat a < 256" and b: "unat b < 256"
    using unsigned_less [of a] unsigned_less [of b] by simp_all
  then have "unat a div 16 < 16" "unat b div 16 < 16" "unat a mod 16 < 16" "unat b mod 16 < 16"
    by simp_all
  moreover from assms have "hexDigit (unat a div 16) = hexDigit (unat b div 16)"
    and "hexDigit (unat a mod 16) = hexDigit (unat b mod 16)"
    by (simp_all add: toHex_def)
  ultimately have "unat a div 16 = unat b div 16" "unat a mod 16 = unat b mod 16"
    by (simp_all add: hexDigit_inject)
  then have "unat a = unat b"
    by (metis div_mult_mod_eq)
  then show ?thesis by (simp add: word_unat_eq_iff)
qed

lemma generateToken_Cons:
  "generateToken (b # bs) =
     hexDigit (unat b div 16) # hexDigit (unat b mod 16) # generateToken bs"
  by (simp add: generateToken_def toHex_def)

lemma generateToken_inject:
  assumes "generateToken xs = generateToken ys"
  shows "xs = ys"
  using assms
proof (induction xs arbitrary: ys)
  case Nil
  then show ?case
    by (cases ys) (simp_all add: generateToken_def toHex_def)
next
  case (Cons x xs)
  show ?case
  proof (cases ys)
    case Nil
    with Cons.prems show ?thesis by (simp add: generateToken_def toHex_def)
  next
    case (Cons y ys')
    with Cons.prems have "toHex x = toHex y" and "generateToken xs = generateToken ys'"
      by (simp_all add: generateToken_Cons toHex_def)
    with Cons.IH toHex_inject show ?thesis unfolding Cons by blast
  qed
qed

lemma issuedToken_bytes: "generateToken issuedBytes = issuedToken"
  by (simp add: generateToken_def toHex_def hexDigit_def issuedBytes_def issuedToken_def)

text \<open>
  C2, as stated, fails: nothing in \<open>resendInvitation\<close> compares the new token with
  the one it replaces. When the random source delivers the 32 bytes of the token the
  invitation already has, the resend succeeds and \<open>verifyInvitation\<close> with the
  pre-resend token still succeeds.
\<close>

theorem resendInvitation_same_bytes:
  "map_option token (getDoc (invitations issuedDb) ''inv1'') = Some issuedToken
   \<and> length (randomBytes repeatedDraw) = 32
   \<and> fst (resendInvitation (Some coach) ''inv1'' repeatedDraw issuedDb) = Inr True
   \<and> fst (verifyInvitation issuedToken ''swimmer@example.org'' 6000
            (snd (resendInvitation (Some coach) ''inv1'' repeatedDraw issuedDb)))
       = Inr (Valid ''inv1'' ''swimmer@example.org'' ''supporter'')"
proof -
  have 1: "map_option token (getDoc (invitations issuedDb) ''inv1'') = Some issuedToken"
    by (simp add: issuedDb_def getDoc_def)
  have 2: "length (randomBytes repeatedDraw) = 32"
    by (simp add: repeatedDraw_def issuedBytes_def)
  have tok: "generateToken (randomBytes repeatedDraw) = issuedToken"
    by (simp add: repeatedDraw_def issuedToken_bytes)
  have ne: "issuedToken \<noteq> []"
    by (simp add: issuedToken_def)
  have run: "resendInvitation (Some coach) ''inv1'' repeatedDraw issuedDb =
      (Inr True,
       issuedDb\<lparr>invitations :=
         [(''inv1'', exampleInvitation\<lparr>token := issuedToken,
             expiresAt := fromMillis (dateNow repeatedDraw + sevenDays),
             updatedAt := Some (serverTimestamp repeatedDraw)\<rparr>)]\<rparr>)"
    by (simp add: resendInvitation_def callerIsAdmin_def coach_def issuedDb_def
        exampleInvitation_def getDoc_def updateDoc_def tok)
      (simp add: repeatedDraw_def exampleDraw_def)
  have 4: "fst (verifyInvitation issuedToken ''swimmer@example.org'' 6000
            (snd (resendInvitation (Some coach) ''inv1'' repeatedDraw issuedDb)))
       = Inr (Valid ''inv1'' ''swimmer@example.org'' ''supporter'')"
    unfolding run
    by (simp add: verifyInvitation_def ne findPending_def queryFirst_def pendingMatch_def
        exampleInvitation_def roleOrSupporter_def fromMillis_def sevenDays_def
        repeatedDraw_def exampleDraw_def)
  from 1 2 4 run show ?thesis by simp
qed

text \<open>
  C2, amended. Take a pending invitation that is the only pending invitation of its
  email, and a successful \<open>resendInvitation\<close> whose random bytes are not the bytes the
  invitation's token was generated from. Then the record holds the token generated
  from the new bytes, which is not the old one; \<open>verifyInvitation\<close> with the email and
  the pre-resend token fails; and with the email and the new token it returns the
  invitation as long as the seconds of the new expiry are not below those of the clock
  (for a record with an empty email it throws ``Invalid request'').
\<close>

theorem resendInvitation_rotates_token:
  assumes ok: "resendInvitation request_auth invitationId d db = (Inr True, db')"
    and old: "getDoc (invitations db) invitationId = Some i"
    and issued: "token i = generateToken oldBytes"
    and differ: "randomBytes d \<noteq> oldBytes"
    and single: "\<forall>(k', j) \<in> set (invitations db).
        k' \<noteq> invitationId \<longrightarrow> \<not> (email j = email i \<and> status j = ''pending'')"
    and bytes: "randomBytes d \<noteq> []"
  shows "map_option token (getDoc (invitations db') invitationId)
         = Some (generateToken (randomBytes d))
     \<and> map_option status (getDoc (invitations db') invitationId) = Some ''pending''
     \<and> generateToken (randomBytes d) \<noteq> token i
     \<and> \<not> valid (fst (verifyInvitation (token i) (email i) clock db'))
     \<and> fst (verifyInvitation (generateToken (randomBytes d)) (email i) clock db') =
         (if email i = [] then Inl (Error ''Invalid request: token and email are required'')
          else if seconds (fromMillis (dateNow d + sevenDays)) < seconds (fromMillis clock)
          then Inr (NotValid ''Invitation has expired'')
          else Inr (Valid (inv_id i) (email i) (roleOrSupporter i)))"
proof -
  let ?new = "generateToken (randomBytes d)"
  let ?f = "\<lambda>i. i\<lparr>token := ?new, expiresAt := fromMillis (dateNow d + sevenDays),
                    updatedAt := Some (serverTimestamp d)\<rparr>"
  from resendInvitation_success [OF ok] old
  have pending: "status i = ''pending''"
    and db': "db' = db\<lparr>invitations := updateDoc invitationId ?f (invitations db)\<rparr>"
    by auto
  have stored: "getDoc (invitations db') invitationId = Some (?f i)"
    by (simp add: db' getDoc_updateDoc old)
  have new_old: "?new \<noteq> token i"
    using differ issued generateToken_inject by auto
  have others: "\<forall>(k', j) \<in> set (invitations db).
      k' \<noteq> invitationId \<longrightarrow> \<not> pendingMatch (email i) t j" for t
    using single by (auto simp: pendingMatch_def)
  have "findPending (email i) (token i) db' = None"
    unfolding findPending_def db' using new_old
    by (simp add: queryFirst_updateDoc_miss [OF others] pendingMatch_def)
  then have part1: "\<not> valid (fst (verifyInvitation (token i) (email i) clock db'))"
    by (simp add: verifyInvitation_def valid_def)
  have found: "findPending (email i) ?new db' = Some (invitationId, ?f i)"
    unfolding findPending_def db' using pending
    by (simp add: queryFirst_updateDoc_hit [OF old others] pendingMatch_def)
  have part2: "fst (verifyInvitation ?new (email i) clock db') =
         (if email i = [] then Inl (Error ''Invalid request: token and email are required'')
          else if seconds (fromMillis (dateNow d + sevenDays)) < seconds (fromMillis clock)
          then Inr (NotValid ''Invitation has expired'')
          else Inr (Valid (inv_id i) (email i) (roleOrSupporter i)))"
  proof (cases "email i = []")
    case True
    then show ?thesis by (simp add: verifyInvitation_def)
  next
    case False
    from verifyInvitation_match [OF generateToken_nonempty [OF bytes] False found, of clock]
    show ?thesis using False by (simp add: roleOrSupporter_def)
  qed
  show ?thesis using stored pending new_old part1 part2 by simp
qed

text \<open>The invitation of the small database, resent at 5 s and verified at 6 s.\<close>

theorem resendInvitation_rotates_token_witness:
  "fst (resendInvitation (Some coach) ''inv1'' exampleDraw exampleDb) = Inr True
   \<and> token exampleInvitation = generateToken [0xc0, 0xff, 0xee]
   \<and> randomBytes exampleDraw = [0xab, 0x01]
   \<and> map_option token
        (getDoc (invitations (snd (resendInvitation (Some coach) ''inv1'' exampleDraw exampleDb)))
           ''inv1'') = Some ''ab01''
   \<and> \<not> valid (fst (verifyInvitation ''c0ffee'' ''swimmer@example.org'' 6000
                    (snd (resendInvitation (Some coach) ''inv1'' exampleDraw exampleDb))))
   \<and> fst (verifyInvitation ''ab01'' ''swimmer@example.org'' 6000
            (snd (resendInvitation (Some coach) ''inv1'' exampleDraw exampleDb)))
       = Inr (Valid ''inv1'' ''swimmer@example.org'' ''supporter'')"
proof -
  let ?db' = "snd (resendInvitation (Some coach) ''inv1'' exampleDraw exampleDb)"
  have okf: "fst (resendInvitation (Some coach) ''inv1'' exampleDraw exampleDb) = Inr True"
    by (simp add: resendInvitation_def callerIsAdmin_def coach_def exampleDb_def
        exampleInvitation_def exampleDraw_def getDoc_def)
  then have ok: "resendInvitation (Some coach) ''inv1'' exampleDraw exampleDb = (Inr True, ?db')"
    by (metis prod.collapse)
  have old: "getDoc (invitations exampleDb) ''inv1'' = Some exampleInvitation"
    by (simp add: getDoc_def exampleDb_def)
  have issued: "token exampleInvitation = generateToken [0xc0, 0xff, 0xee]"
    by (simp add: generateToken_def toHex_def hexDigit_def exampleInvitation_def)
  have drawn: "randomBytes exampleDraw = [0xab, 0x01]"
    by (simp add: exampleDraw_def)
  have tok: "generateToken (randomBytes exampleDraw) = ''ab01''"
    by (simp add: generateToken_def toHex_def hexDigit_def exampleDraw_def)
  have differ: "randomBytes exampleDraw \<noteq> [0xc0, 0xff, 0xee]"
    by (simp add: exampleDraw_def)
  have single: "\<forall>(k', j) \<in> set (invitations exampleDb).
      k' \<noteq> ''inv1'' \<longrightarrow> \<not> (email j = email exampleInvitation \<and> status j = ''pending'')"
    by (simp add: exampleDb_def)
  have bytes: "randomBytes exampleDraw \<noteq> []" by (simp add: exampleDraw_def)
  have em: "email exampleInvitation = ''swimmer@example.org''"
    and tk: "token exampleInvitation = ''c0ffee''"
    by (simp_all add: exampleInvitation_def)
  note rotated = resendInvitation_rotates_token [OF ok old issued differ single bytes, of 6000]
  have 1: "map_option token (getDoc (invitations ?db') ''inv1'') = Some ''ab01''"
    using rotated [THEN conjunct1] unfolding tok .
  have 2: "\<not> valid (fst (verifyInvitation ''c0ffee'' ''swimmer@example.org'' 6000 ?db'))"
    using rotated [THEN conjunct2, THEN conjunct2, THEN conjunct2, THEN conjunct1]
    unfolding em tk .
  have 3: "fst (verifyInvitation ''ab01'' ''swimmer@example.org'' 6000 ?db')
       = Inr (Valid ''inv1'' ''swimmer@example.org'' ''supporter'')"
    using rotated [THEN conjunct2, THEN conjunct2, THEN conjunct2, THEN conjunct2]
    unfolding em tok
    by (simp add: exampleInvitation_def roleOrSupporter_def exampleDraw_def
        fromMillis_def sevenDays_def)
  from okf issued drawn 1 2 3 show ?thesis by blast
qed

subsection \<open>The loop of sendInvitations\<close>

lemma setDoc_mem: "(k, v) \<in> set (setDoc k v c)"
  by (induction c) auto

lemma setDoc_subset: "set (setDoc k v c) \<subseteq> insert (k, v) (set c)"
  by (induction c) (auto split: if_splits)

lemma setDoc_other: "(k', v') \<in> set c \<Longrightarrow> k' \<noteq> k \<Longrightarrow> (k', v') \<in> set (setDoc k v c)"
  by (induction c) auto

lemma invitationSnapshot_iff:
  "invitationSnapshot e db \<noteq> None \<longleftrightarrow>
     (\<exists>(k, i) \<in> set (invitations db). email i = e \<and> status i = ''pending'')"
  by (auto simp: invitationSnapshot_def queryFirst_None)

lemma userSnapshot_users: "users db' = users db \<Longrightarrow> userSnapshot e db' = userSnapshot e db"
  by (simp add: userSnapshot_def)

lemma newInvitation_fields:
  "email (newInvitation a invitedBy e d) = e"
  "status (newInvitation a invitedBy e d) = ''pending''"
  "inv_id (newInvitation a invitedBy e d) = docId d"
  "token (newInvitation a invitedBy e d) = generateToken (randomBytes d)"
  "createdAt (newInvitation a invitedBy e d) = serverTimestamp d"
  "expiresAt (newInvitation a invitedBy e d) = fromMillis (dateNow d + sevenDays)"
  "role (newInvitation a invitedBy e d) = None"
  by (simp_all add: newInvitation_def)

text \<open>The three ways through the body of the loop.\<close>

lemma processEmail_user:
  "userSnapshot e db \<noteq> None \<Longrightarrow>
     processEmail a invitedBy (res, db) (e, d) = (pushFailed e ''User already exists'' res, db)"
  by (simp add: processEmail_def)

lemma processEmail_pending:
  "userSnapshot e db = None \<Longrightarrow> invitationSnapshot e db \<noteq> None \<Longrightarrow>
     processEmail a invitedBy (res, db) (e, d) = (pushFailed e ''Invitation already sent'' res, db)"
  by (simp add: processEmail_def)

lemma processEmail_create:
  "userSnapshot e db = None \<Longrightarrow> invitationSnapshot e db = None \<Longrightarrow>
     processEmail a invitedBy (res, db) (e, d) =
       (case sendMailError d of
          None \<Rightarrow> pushSuccess e res
        | Some msg \<Rightarrow> pushFailed e (if msg = [] then ''Unknown error'' else msg) res,
        db\<lparr>invitations := setDoc (docId d) (newInvitation a invitedBy e d) (invitations db)\<rparr>)"
  by (simp add: processEmail_def Let_def split: option.splits)

lemma processEmail_shape:
  obtains
    (user) "userSnapshot e db \<noteq> None"
      "processEmail a invitedBy (res, db) (e, d) = (pushFailed e ''User already exists'' res, db)"
  | (pending) "userSnapshot e db = None" "invitationSnapshot e db \<noteq> None"
      "processEmail a invitedBy (res, db) (e, d) = (pushFailed e ''Invitation already sent'' res, db)"
  | (sent) "userSnapshot e db = None" "invitationSnapshot e db = None" "sendMailError d = None"
      "processEmail a invitedBy (res, db) (e, d) =
         (pushSuccess e res,
          db\<lparr>invitations := setDoc (docId d) (newInvitation a invitedBy e d) (invitations db)\<rparr>)"
  | (bounced) msg where "userSnapshot e db = None" "invitationSnapshot e db = None"
      "sendMailError d = Some msg"
      "processEmail a invitedBy (res, db) (e, d) =
         (pushFailed e (if msg = [] then ''Unknown error'' else msg) res,
          db\<lparr>invitations := setDoc (docId d) (newInvitation a invitedBy e d) (invitations db)\<rparr>)"
proof (cases "userSnapshot e db")
  case (Some u)
  show ?thesis by (rule user) (simp_all add: Some processEmail_user)
next
  case nu: None
  show ?thesis
  proof (cases "invitationSnapshot e db")
    case (Some p)
    show ?thesis by (rule pending) (simp_all add: nu Some processEmail_pending)
  next
    case np: None
    show ?thesis
    proof (cases "sendMailError d")
      case None
      show ?thesis by (rule sent) (simp_all add: nu np None processEmail_create)
    next
      case (Some msg)
      show ?thesis by (rule bounced [of msg]) (simp_all add: nu np Some processEmail_create)
    qed
  qed
qed

lemma step_users: "users (snd (processEmail a invitedBy st ed)) = users (snd st)"
proof -
  obtain res db e d where [simp]: "st = (res, db)" "ed = (e, d)" by (cases st, cases ed) auto
  show ?thesis by (cases rule: processEmail_shape [of e db a invitedBy res d]) simp_all
qed

lemma step_count:
  "mset (success (fst (processEmail a invitedBy st ed)))
     + mset (map fst (failed (fst (processEmail a invitedBy st ed))))
   = mset (success (fst st)) + mset (map fst (failed (fst st))) + {#fst ed#}"
proof -
  obtain res db e d where [simp]: "st = (res, db)" "ed = (e, d)" by (cases st, cases ed) auto
  show ?thesis
    by (cases rule: processEmail_shape [of e db a invitedBy res d])
      (simp_all add: pushFailed_def pushSuccess_def)
qed

lemma step_failed_mono:
  "set (failed (fst st)) \<subseteq> set (failed (fst (processEmail a invitedBy st ed)))"
proof -
  obtain res db e d where [simp]: "st = (res, db)" "ed = (e, d)" by (cases st, cases ed) auto
  show ?thesis
    by (cases rule: processEmail_shape [of e db a invitedBy res d])
      (auto simp: pushFailed_def pushSuccess_def)
qed

lemma step_success_subset:
  "set (success (fst (processEmail a invitedBy st ed))) \<subseteq> insert (fst ed) (set (success (fst st)))"
proof -
  obtain res db e d where [simp]: "st = (res, db)" "ed = (e, d)" by (cases st, cases ed) auto
  show ?thesis
    by (cases rule: processEmail_shape [of e db a invitedBy res d])
      (auto simp: pushFailed_def pushSuccess_def)
qed

lemma step_persist:
  assumes "(k, i) \<in> set (invitations (snd st))" and "k \<noteq> docId (snd ed)"
  shows "(k, i) \<in> set (invitations (snd (processEmail a invitedBy st ed)))"
proof -
  obtain res db e d where [simp]: "st = (res, db)" "ed = (e, d)" by (cases st, cases ed) auto
  show ?thesis using assms
    by (cases rule: processEmail_shape [of e db a invitedBy res d])
      (simp_all add: setDoc_other)
qed

lemma step_records:
  "set (invitations (snd (processEmail a invitedBy st ed)))
     \<subseteq> insert (docId (snd ed), newInvitation a invitedBy (fst ed) (snd ed))
         (set (invitations (snd st)))"
proof -
  obtain res db e d where [simp]: "st = (res, db)" "ed = (e, d)" by (cases st, cases ed) auto
  show ?thesis using setDoc_subset [of "docId d" "newInvitation a invitedBy e d" "invitations db"]
    by (cases rule: processEmail_shape [of e db a invitedBy res d]) auto
qed

lemma step_no_pending:
  assumes "invitationSnapshot e (snd st) = None" and "fst ed \<noteq> e"
  shows "invitationSnapshot e (snd (processEmail a invitedBy st ed)) = None"
proof (rule ccontr)
  assume "invitationSnapshot e (snd (processEmail a invitedBy st ed)) \<noteq> None"
  then obtain k i where ki: "(k, i) \<in> set (invitations (snd (processEmail a invitedBy st ed)))"
    "email i = e" "status i = ''pending''"
    unfolding invitationSnapshot_iff by blast
  from ki(1) step_records have "(k, i) = (docId (snd ed), newInvitation a invitedBy (fst ed) (snd ed))
      \<or> (k, i) \<in> set (invitations (snd st))" by blast
  then show False
  proof
    assume "(k, i) = (docId (snd ed), newInvitation a invitedBy (fst ed) (snd ed))"
    then show False using ki(2) assms(2) by (simp add: newInvitation_fields)
  next
    assume "(k, i) \<in> set (invitations (snd st))"
    then have "invitationSnapshot e (snd st) \<noteq> None"
      unfolding invitationSnapshot_iff using ki(2,3) by blast
    with assms(1) show False by simp
  qed
qed

lemma processEmails_append:
  "processEmails a invitedBy st (xs @ ys) =
     processEmails a invitedBy (processEmails a invitedBy st xs) ys"
  by (induction xs arbitrary: st) simp_all

lemma loop_users: "users (snd (processEmails a invitedBy st eds)) = users (snd st)"
  by (induction eds arbitrary: st) (simp_all add: step_users)

lemma loop_count:
  "mset (success (fst (processEmails a invitedBy st eds)))
     + mset (map fst (failed (fst (processEmails a invitedBy st eds))))
   = mset (success (fst st)) + mset (map fst (failed (fst st))) + mset (map fst eds)"
proof (induction eds arbitrary: st)
  case Nil
  show ?case by simp
next
  case (Cons ed eds)
  show ?case
    using Cons.IH [of "processEmail a invitedBy st ed"] step_count [of a invitedBy st ed]
    by simp
qed

lemma loop_failed_mono:
  "set (failed (fst st)) \<subseteq> set (failed (fst (processEmails a invitedBy st eds)))"
proof (induction eds arbitrary: st)
  case Nil
  show ?case by simp
next
  case (Cons ed eds)
  have "set (failed (fst st)) \<subseteq> set (failed (fst (processEmail a invitedBy st ed)))"
    by (rule step_failed_mono)
  also have "\<dots> \<subseteq> set (failed (fst (processEmails a invitedBy (processEmail a invitedBy st ed) eds)))"
    by (rule Cons.IH)
  finally show ?case by simp
qed

lemma loop_success_subset:
  "set (success (fst (processEmails a invitedBy st eds)))
     \<subseteq> set (success (fst st)) \<union> fst ` set eds"
proof (induction eds arbitrary: st)
  case Nil
  show ?case by simp
next
  case (Cons ed eds)
  have "set (success (fst (processEmails a invitedBy (processEmail a invitedBy st ed) eds)))
      \<subseteq> set (success (fst (processEmail a invitedBy st ed))) \<union> fst ` set eds"
    by (rule Cons.IH)
  also have "\<dots> \<subseteq> insert (fst ed) (set (success (fst st))) \<union> fst ` set eds"
    using step_success_subset [of a invitedBy st ed] by blast
  finally show ?case by auto
qed

lemma loop_persist:
  assumes "(k, i) \<in> set (invitations (snd st))" and "k \<notin> (docId \<circ> snd) ` set eds"
  shows "(k, i) \<in> set (invitations (snd (processEmails a invitedBy st eds)))"
  using assms
proof (induction eds arbitrary: st)
  case Nil
  then show ?case by simp
next
  case (Cons ed eds)
  from Cons.prems have "(k, i) \<in> set (invitations (snd (processEmail a invitedBy st ed)))"
    by (intro step_persist) simp_all
  moreover from Cons.prems have "k \<notin> (docId \<circ> snd) ` set eds" by simp
  ultimately show ?case using Cons.IH by simp
qed

lemma loop_records:
  assumes "(k, i) \<in> set (invitations (snd (processEmails a invitedBy st eds)))"
  shows "(k, i) \<in> set (invitations (snd st))
     \<or> (\<exists>(e, d) \<in> set eds. k = docId d \<and> i = newInvitation a invitedBy e d)"
  using assms
proof (induction eds arbitrary: st)
  case Nil
  then show ?case by simp
next
  case (Cons ed eds)
  from Cons.prems have "(k, i) \<in> set (invitations (snd (processEmails a invitedBy (processEmail a invitedBy st ed) eds)))"
    by simp
  from Cons.IH [OF this] show ?case
  proof
    assume "(k, i) \<in> set (invitations (snd (processEmail a invitedBy st ed)))"
    with step_records [of a invitedBy st ed]
    have "(k, i) = (docId (snd ed), newInvitation a invitedBy (fst ed) (snd ed))
        \<or> (k, i) \<in> set (invitations (snd st))" by blast
    then show ?thesis by (cases ed) auto
  next
    assume "\<exists>(e, d) \<in> set eds. k = docId d \<and> i = newInvitation a invitedBy e d"
    then show ?thesis by auto
  qed
qed

lemma loop_no_pending:
  assumes "invitationSnapshot e (snd st) = None" and "e \<notin> fst ` set eds"
  shows "invitationSnapshot e (snd (processEmails a invitedBy st eds)) = None"
  using assms
proof (induction eds arbitrary: st)
  case Nil
  then show ?case by simp
next
  case (Cons ed eds)
  from Cons.prems have "invitationSnapshot e (snd (processEmail a invitedBy st ed)) = None"
    by (intro step_no_pending) auto
  moreover from Cons.prems have "e \<notin> fst ` set eds" by simp
  ultimately show ?case using Cons.IH by simp
qed

text \<open>An email that has an account is rejected at every occurrence.\<close>

lemma loop_user_rejected:
  assumes "userSnapshot e (snd st) \<noteq> None" and "e \<notin> set (success (fst st))"
  shows "e \<notin> set (success (fst (processEmails a invitedBy st eds)))
     \<and> (e \<in> fst ` set eds \<longrightarrow>
          (e, ''User already exists'') \<in> set (failed (fst (processEmails a invitedBy st eds))))"
  using assms
proof (induction eds arbitrary: st)
  case Nil
  then show ?case by simp
next
  case (Cons ed eds)
  obtain res db e' d' where [simp]: "st = (res, db)" "ed = (e', d')" by (cases st, cases ed) auto
  let ?st' = "processEmail a invitedBy st ed"
  have u': "userSnapshot e (snd ?st') \<noteq> None"
    using Cons.prems(1) userSnapshot_users [OF step_users] by simp
  have s': "e \<notin> set (success (fst ?st'))"
  proof (cases "e' = e")
    case True
    then show ?thesis using Cons.prems by (simp add: processEmail_user pushFailed_def)
  next
    case False
    then show ?thesis using Cons.prems(2) step_success_subset [of a invitedBy st ed] by auto
  qed
  note IH = Cons.IH [OF u' s']
  have "e' = e \<Longrightarrow> (e, ''User already exists'') \<in> set (failed (fst ?st'))"
    using Cons.prems(1) by (simp add: processEmail_user pushFailed_def)
  then have "e' = e \<Longrightarrow>
      (e, ''User already exists'') \<in> set (failed (fst (processEmails a invitedBy ?st' eds)))"
    using loop_failed_mono by blast
  with IH show ?case by auto
qed

text \<open>
  So is an email that has a pending invitation, as long as no later write replaces
  that record.
\<close>

lemma loop_pending_rejected:
  assumes "(k, i) \<in> set (invitations (snd st))" and "email i = e" and "status i = ''pending''"
    and "k \<notin> (docId \<circ> snd) ` set eds"
    and "userSnapshot e (snd st) = None" and "e \<notin> set (success (fst st))"
  shows "e \<notin> set (success (fst (processEmails a invitedBy st eds)))
     \<and> (e \<in> fst ` set eds \<longrightarrow>
          (e, ''Invitation already sent'') \<in> set (failed (fst (processEmails a invitedBy st eds))))"
  using assms
proof (induction eds arbitrary: st)
  case Nil
  then show ?case by simp
next
  case (Cons ed eds)
  obtain res db e' d' where [simp]: "st = (res, db)" "ed = (e', d')" by (cases st, cases ed) auto
  let ?st' = "processEmail a invitedBy st ed"
  have pend: "invitationSnapshot e db \<noteq> None"
    unfolding invitationSnapshot_iff using Cons.prems(1-3) by auto
  have k': "(k, i) \<in> set (invitations (snd ?st'))"
    using Cons.prems(1,4) by (intro step_persist) simp_all
  have ks: "k \<notin> (docId \<circ> snd) ` set eds" using Cons.prems(4) by simp
  have u': "userSnapshot e (snd ?st') = None"
    using Cons.prems(5) userSnapshot_users [OF step_users] by simp
  have s': "e \<notin> set (success (fst ?st'))"
  proof (cases "e' = e")
    case True
    then show ?thesis using Cons.prems(5,6) pend by (simp add: processEmail_pending pushFailed_def)
  next
    case False
    then show ?thesis using Cons.prems(6) step_success_subset [of a invitedBy st ed] by auto
  qed
  note IH = Cons.IH [OF k' Cons.prems(2,3) ks u' s']
  have "e' = e \<Longrightarrow> (e, ''Invitation already sent'') \<in> set (failed (fst ?st'))"
    using Cons.prems(5) pend by (simp add: processEmail_pending pushFailed_def)
  then have "e' = e \<Longrightarrow>
      (e, ''Invitation already sent'') \<in> set (failed (fst (processEmails a invitedBy ?st' eds)))"
    using loop_failed_mono by blast
  with IH show ?case by auto
qed

text \<open>An email that is not rejected has its record in the store when the loop ends.\<close>

lemma loop_created:
  assumes "(e, d) \<in> set eds"
    and "userSnapshot e (snd st) = None" and "invitationSnapshot e (snd st) = None"
    and "distinct (map (docId \<circ> snd) eds)"
  shows "\<exists>d'. (e, d') \<in> set eds
     \<and> (docId d', newInvitation a invitedBy e d')
         \<in> set (invitations (snd (processEmails a invitedBy st eds)))"
  using assms
proof (induction eds arbitrary: st)
  case Nil
  then show ?case by simp
next
  case (Cons ed eds)
  obtain res db e' d' where [simp]: "st = (res, db)" "ed = (e', d')" by (cases st, cases ed) auto
  let ?st' = "processEmail a invitedBy st ed"
  have dist: "distinct (map (docId \<circ> snd) eds)" and notin: "docId d' \<notin> (docId \<circ> snd) ` set eds"
    using Cons.prems(4) by (simp_all add: comp_def)
  show ?case
  proof (cases "e' = e")
    case True
    have "(docId d', newInvitation a invitedBy e d') \<in> set (invitations (snd ?st'))"
      using Cons.prems(2,3) True
      by (simp add: processEmail_create setDoc_mem split: option.splits)
    then have "(docId d', newInvitation a invitedBy e d')
        \<in> set (invitations (snd (processEmails a invitedBy ?st' eds)))"
      using notin by (rule loop_persist)
    then show ?thesis using True by auto
  next
    case False
    then have mem: "(e, d) \<in> set eds" using Cons.prems(1) by simp
    have u': "userSnapshot e (snd ?st') = None"
      using Cons.prems(2) userSnapshot_users [OF step_users] by simp
    have p': "invitationSnapshot e (snd ?st') = None"
      using Cons.prems(3) False by (intro step_no_pending) simp_all
    from Cons.IH [OF mem u' p' dist] show ?thesis by auto
  qed
qed

subsection \<open>sendInvitations\<close>

lemma sendInvitations_admin:
  assumes "callerIsAdmin a db" and "emails \<noteq> []"
  shows "sendInvitations (Some a) emails invitedBy db =
     (Inr (fst (processEmails a invitedBy (\<lparr>success = [], failed = []\<rparr>, db) emails)),
      snd (processEmails a invitedBy (\<lparr>success = [], failed = []\<rparr>, db) emails))"
  using assms by (simp add: sendInvitations_def Let_def)

lemma sendInvitations_returns:
  assumes "sendInvitations request_auth emails invitedBy db = (Inr res, db')"
  shows "\<exists>a. request_auth = Some a \<and> callerIsAdmin a db \<and> emails \<noteq> []
     \<and> res = fst (processEmails a invitedBy (\<lparr>success = [], failed = []\<rparr>, db) emails)
     \<and> db' = snd (processEmails a invitedBy (\<lparr>success = [], failed = []\<rparr>, db) emails)"
  using assms
  by (auto simp: sendInvitations_def Let_def split: option.splits if_splits)

lemma getDoc_setDoc:
  "getDoc (setDoc k v c) k' = (if k' = k then Some v else getDoc c k')"
  unfolding getDoc_def by (induction c) auto

lemma step_getDoc:
  assumes "k \<noteq> docId (snd ed)"
  shows "getDoc (invitations (snd (processEmail a invitedBy st ed))) k = getDoc (invitations (snd st)) k"
proof -
  obtain res db e d where [simp]: "st = (res, db)" "ed = (e, d)" by (cases st, cases ed) auto
  show ?thesis using assms
    by (cases rule: processEmail_shape [of e db a invitedBy res d])
      (simp_all add: getDoc_setDoc)
qed

lemma loop_getDoc:
  assumes "k \<notin> (docId \<circ> snd) ` set eds"
  shows "getDoc (invitations (snd (processEmails a invitedBy st eds))) k = getDoc (invitations (snd st)) k"
  using assms
proof (induction eds arbitrary: st)
  case Nil
  show ?case by simp
next
  case (Cons ed eds)
  then show ?case by (simp add: step_getDoc)
qed

text \<open>What the loop leaves, in terms of the record \<open>newInvitation\<close> builds.\<close>

lemma sendInvitations_loop_outcome:
  assumes admin: "callerIsAdmin a db" and ne: "emails \<noteq> []"
    and ids: "distinct (map (docId \<circ> snd) emails)"
    and fresh: "\<forall>(e, d) \<in> set emails. docId d \<notin> fst ` set (invitations db)"
  shows "\<exists>res db'. sendInvitations (Some a) emails invitedBy db = (Inr res, db')
     \<and> mset (success res) + mset (map fst (failed res)) = mset (map fst emails)
     \<and> (\<forall>(e, d) \<in> set emails.
          (userSnapshot e db \<noteq> None \<longrightarrow>
             (e, ''User already exists'') \<in> set (failed res) \<and> e \<notin> set (success res))
        \<and> (userSnapshot e db = None \<and> invitationSnapshot e db \<noteq> None \<longrightarrow>
             (e, ''Invitation already sent'') \<in> set (failed res) \<and> e \<notin> set (success res))
        \<and> (userSnapshot e db = None \<and> invitationSnapshot e db = None \<longrightarrow>
             (\<exists>d'. (e, d') \<in> set emails
                \<and> (docId d', newInvitation a invitedBy e d') \<in> set (invitations db')
                \<and> (docId d', newInvitation a invitedBy e d') \<notin> set (invitations db))))"
proof -
  let ?st = "(\<lparr>success = [], failed = []\<rparr>, db)"
  let ?R = "processEmails a invitedBy ?st emails"
  have run: "sendInvitations (Some a) emails invitedBy db = (Inr (fst ?R), snd ?R)"
    by (rule sendInvitations_admin [OF admin ne])
  have count: "mset (success (fst ?R)) + mset (map fst (failed (fst ?R))) = mset (map fst emails)"
    using loop_count [of a invitedBy ?st emails] by simp
  have each: "(userSnapshot e db \<noteq> None \<longrightarrow>
             (e, ''User already exists'') \<in> set (failed (fst ?R)) \<and> e \<notin> set (success (fst ?R)))
        \<and> (userSnapshot e db = None \<and> invitationSnapshot e db \<noteq> None \<longrightarrow>
             (e, ''Invitation already sent'') \<in> set (failed (fst ?R)) \<and> e \<notin> set (success (fst ?R)))
        \<and> (userSnapshot e db = None \<and> invitationSnapshot e db = None \<longrightarrow>
             (\<exists>d'. (e, d') \<in> set emails
                \<and> (docId d', newInvitation a invitedBy e d') \<in> set (invitations (snd ?R))
                \<and> (docId d', newInvitation a invitedBy e d') \<notin> set (invitations db)))"
    if mem: "(e, d) \<in> set emails" for e d
  proof (intro conjI impI)
    assume u: "userSnapshot e db \<noteq> None"
    from loop_user_rejected [of e ?st a invitedBy emails] u mem
    show "(e, ''User already exists'') \<in> set (failed (fst ?R))" and "e \<notin> set (success (fst ?R))"
      by force+
  next
    assume "userSnapshot e db = None \<and> invitationSnapshot e db \<noteq> None"
    then have u: "userSnapshot e db = None" and p: "invitationSnapshot e db \<noteq> None" by simp_all
    from p obtain k i where ki: "(k, i) \<in> set (invitations db)" "email i = e" "status i = ''pending''"
      unfolding invitationSnapshot_iff by blast
    have "k \<in> fst ` set (invitations db)" using ki(1) by force
    note kin = this
    have k: "k \<notin> (docId \<circ> snd) ` set emails"
    proof
      assume "k \<in> (docId \<circ> snd) ` set emails"
      then obtain e' d' where "(e', d') \<in> set emails" "k = docId d'" by auto
      with fresh have "k \<notin> fst ` set (invitations db)" by auto
      with \<open>k \<in> fst ` set (invitations db)\<close> show False by simp
    qed
    from loop_pending_rejected [of k i ?st e emails a invitedBy] ki k u mem
    show "(e, ''Invitation already sent'') \<in> set (failed (fst ?R))" and "e \<notin> set (success (fst ?R))"
      by force+
  next
    assume "userSnapshot e db = None \<and> invitationSnapshot e db = None"
    then have u: "userSnapshot e db = None" and p: "invitationSnapshot e db = None" by simp_all
    from loop_created [of e d emails ?st a invitedBy] mem u p ids
    obtain d' where d': "(e, d') \<in> set emails"
      "(docId d', newInvitation a invitedBy e d') \<in> set (invitations (snd ?R))" by auto
    have "(docId d', newInvitation a invitedBy e d') \<notin> set (invitations db)"
    proof
      assume "(docId d', newInvitation a invitedBy e d') \<in> set (invitations db)"
      then have "invitationSnapshot e db \<noteq> None"
        unfolding invitationSnapshot_iff by (force simp: newInvitation_fields)
      with p show False by simp
    qed
    with d' show "\<exists>d'. (e, d') \<in> set emails
        \<and> (docId d', newInvitation a invitedBy e d') \<in> set (invitations (snd ?R))
        \<and> (docId d', newInvitation a invitedBy e d') \<notin> set (invitations db)" by blast
  qed
  show ?thesis
    unfolding run using count each by (intro exI conjI) (rule refl, assumption, blast)
qed

lemma distinct_split_notin:
  assumes "distinct (map f (xs @ x # ys))"
  shows "f x \<notin> f ` set ys"
  using assms by auto

text \<open>
  C5. For an administrator and a non-empty list, \<open>sendInvitations\<close> returns its
  results and never aborts. Every entry of the input list ends up in exactly one of
  the two lists. An email with an account is in \<open>failed\<close> with ``User already
  exists'' and an email with a pending invitation is in \<open>failed\<close> with ``Invitation
  already sent'', neither is in \<open>success\<close>. Every other email has a new record in the
  store when the call returns: under the identifier generated for it, with that
  identifier and the email in it, the token generated from its random bytes, status
  \<^verbatim>\<open>'pending'\<close>, the server's timestamp as \<^verbatim>\<open>createdAt\<close>, the inviter, and an expiry
  seven days after its clock reading. The identifiers \<^verbatim>\<open>doc()\<close> generates are taken to
  be new: different from each other and from those of the store.
\<close>

theorem sendInvitations_batch:
  assumes admin: "callerIsAdmin a db" and ne: "emails \<noteq> []"
    and ids: "distinct (map (docId \<circ> snd) emails)"
    and fresh: "\<forall>(e, d) \<in> set emails. docId d \<notin> fst ` set (invitations db)"
  shows "\<exists>res db'. sendInvitations (Some a) emails invitedBy db = (Inr res, db')
     \<and> mset (success res) + mset (map fst (failed res)) = mset (map fst emails)
     \<and> (\<forall>(e, d) \<in> set emails.
          (userSnapshot e db \<noteq> None \<longrightarrow>
             (e, ''User already exists'') \<in> set (failed res) \<and> e \<notin> set (success res))
        \<and> (userSnapshot e db = None \<and> invitationSnapshot e db \<noteq> None \<longrightarrow>
             (e, ''Invitation already sent'') \<in> set (failed res) \<and> e \<notin> set (success res))
        \<and> (userSnapshot e db = None \<and> invitationSnapshot e db = None \<longrightarrow>
             (\<exists>d' i. (e, d') \<in> set emails
                \<and> i = \<lparr>inv_id = docId d',
                        email = e,
                        token = generateToken (randomBytes d'),
                        status = ''pending'',
                        createdAt = serverTimestamp d',
                        createdBy = (case invitedBy of
                                       None \<Rightarrow> token_email a
                                     | Some s \<Rightarrow> if s = [] then token_email a else s),
                        expiresAt = fromMillis (dateNow d' + sevenDays),
                        updatedAt = None, acceptedAt = None, acceptedBy = None,
                        role = None\<rparr>
                \<and> (docId d', i) \<in> set (invitations db')
                \<and> (docId d', i) \<notin> set (invitations db)
                \<and> getDoc (invitations db') (docId d') = Some i)))"
proof -
  from sendInvitations_loop_outcome [OF admin ne ids fresh, of invitedBy]
  obtain res db' where run: "sendInvitations (Some a) emails invitedBy db = (Inr res, db')"
    and count: "mset (success res) + mset (map fst (failed res)) = mset (map fst emails)"
    and each: "\<forall>(e, d) \<in> set emails.
          (userSnapshot e db \<noteq> None \<longrightarrow>
             (e, ''User already exists'') \<in> set (failed res) \<and> e \<notin> set (success res))
        \<and> (userSnapshot e db = None \<and> invitationSnapshot e db \<noteq> None \<longrightarrow>
             (e, ''Invitation already sent'') \<in> set (failed res) \<and> e \<notin> set (success res))
        \<and> (userSnapshot e db = None \<and> invitationSnapshot e db = None \<longrightarrow>
             (\<exists>d'. (e, d') \<in> set emails
                \<and> (docId d', newInvitation a invitedBy e d') \<in> set (invitations db')
                \<and> (docId d', newInvitation a invitedBy e d') \<notin> set (invitations db)))"
    by blast
  have db': "db' = snd (processEmails a invitedBy (\<lparr>success = [], failed = []\<rparr>, db) emails)"
    using run sendInvitations_admin [OF admin ne, of invitedBy] by simp
  have stored: "getDoc (invitations db') (docId d') = Some (newInvitation a invitedBy e d')"
    if "(e, d') \<in> set emails" "(docId d', newInvitation a invitedBy e d') \<in> set (invitations db')"
    for e d'
  proof -
    from that(1) obtain pre post where split: "emails = pre @ (e, d') # post"
      by (auto simp: in_set_conv_decomp)
    have later: "docId d' \<notin> (docId \<circ> snd) ` set post"
      using distinct_split_notin [of "docId \<circ> snd" pre "(e, d')" post] ids split by simp
    have earlier: "docId d' \<notin> (docId \<circ> snd) ` set pre"
      using ids unfolding split by auto
    let ?st0 = "(\<lparr>success = [], failed = []\<rparr>, db)"
    let ?st1 = "processEmails a invitedBy ?st0 pre"
    let ?st2 = "processEmail a invitedBy ?st1 (e, d')"
    have R: "processEmails a invitedBy ?st0 emails = processEmails a invitedBy ?st2 post"
      unfolding split by (simp add: processEmails_append)
    have "(docId d', newInvitation a invitedBy e d') \<in> set (invitations (snd ?st2))"
    proof (rule ccontr)
      assume no: "(docId d', newInvitation a invitedBy e d') \<notin> set (invitations (snd ?st2))"
      from that(2) have "(docId d', newInvitation a invitedBy e d')
          \<in> set (invitations (snd (processEmails a invitedBy ?st2 post)))"
        unfolding db' R .
      from loop_records [OF this] no
      obtain e2 d2 where "(e2, d2) \<in> set post" "docId d' = docId d2" by auto
      with later show False by force
    qed
    moreover have "getDoc (invitations (snd ?st2)) (docId d') = Some (newInvitation a invitedBy e d')
        \<or> snd ?st2 = snd ?st1"
    proof -
      obtain res1 db1 where st1: "?st1 = (res1, db1)" by (cases ?st1)
      show ?thesis unfolding st1
        by (cases rule: processEmail_shape [of e db1 a invitedBy res1 d'])
          (simp_all add: getDoc_setDoc)
    qed
    moreover have "(docId d', newInvitation a invitedBy e d') \<notin> set (invitations (snd ?st1))"
    proof
      assume "(docId d', newInvitation a invitedBy e d') \<in> set (invitations (snd ?st1))"
      from loop_records [OF this]
      have "(docId d', newInvitation a invitedBy e d') \<in> set (invitations db)
          \<or> (\<exists>(e1, d1) \<in> set pre. docId d' = docId d1)" by auto
      moreover have "docId d' \<notin> fst ` set (invitations db)"
        using fresh that(1) by auto
      ultimately show False using earlier by force
    qed
    ultimately have "getDoc (invitations (snd ?st2)) (docId d') = Some (newInvitation a invitedBy e d')"
      by auto
    then show ?thesis
      unfolding db' R using loop_getDoc [OF later] by simp
  qed
  have lit: "newInvitation a invitedBy e d' =
      \<lparr>inv_id = docId d', email = e, token = generateToken (randomBytes d'),
       status = ''pending'', createdAt = serverTimestamp d',
       createdBy = (case invitedBy of
                      None \<Rightarrow> token_email a
                    | Some s \<Rightarrow> if s = [] then token_email a else s),
       expiresAt = fromMillis (dateNow d' + sevenDays),
       updatedAt = None, acceptedAt = None, acceptedBy = None, role = None\<rparr>" for e d'
    by (simp add: newInvitation_def)
  have each': "(userSnapshot e db \<noteq> None \<longrightarrow>
             (e, ''User already exists'') \<in> set (failed res) \<and> e \<notin> set (success res))
        \<and> (userSnapshot e db = None \<and> invitationSnapshot e db \<noteq> None \<longrightarrow>
             (e, ''Invitation already sent'') \<in> set (failed res) \<and> e \<notin> set (success res))
        \<and> (userSnapshot e db = None \<and> invitationSnapshot e db = None \<longrightarrow>
             (\<exists>d' i. (e, d') \<in> set emails
                \<and> i = \<lparr>inv_id = docId d', email = e, token = generateToken (randomBytes d'),
                        status = ''pending'', createdAt = serverTimestamp d',
                        createdBy = (case invitedBy of
                                       None \<Rightarrow> token_email a
                                     | Some s \<Rightarrow> if s = [] then token_email a else s),
                        expiresAt = fromMillis (dateNow d' + sevenDays),
                        updatedAt = None, acceptedAt = None, acceptedBy = None,
                        role = None\<rparr>
                \<and> (docId d', i) \<in> set (invitations db')
                \<and> (docId d', i) \<notin> set (invitations db)
                \<and> getDoc (invitations db') (docId d') = Some i))"
    if mem: "(e, d) \<in> set emails" for e d
  proof (intro conjI impI)
    assume "userSnapshot e db \<noteq> None"
    with each mem show "(e, ''User already exists'') \<in> set (failed res)"
      and "e \<notin> set (success res)" by auto
  next
    assume "userSnapshot e db = None \<and> invitationSnapshot e db \<noteq> None"
    with each mem show "(e, ''Invitation already sent'') \<in> set (failed res)"
      and "e \<notin> set (success res)" by auto
  next
    assume "userSnapshot e db = None \<and> invitationSnapshot e db = None"
    with each mem obtain d' where d': "(e, d') \<in> set emails"
      "(docId d', newInvitation a invitedBy e d') \<in> set (invitations db')"
      "(docId d', newInvitation a invitedBy e d') \<notin> set (invitations db)"
      by fastforce
    from stored [OF d'(1,2)] d' lit [of e d']
    show "\<exists>d' i. (e, d') \<in> set emails
        \<and> i = \<lparr>inv_id = docId d', email = e, token = generateToken (randomBytes d'),
                status = ''pending'', createdAt = serverTimestamp d',
                createdBy = (case invitedBy of
                               None \<Rightarrow> token_email a
                             | Some s \<Rightarrow> if s = [] then token_email a else s),
                expiresAt = fromMillis (dateNow d' + sevenDays),
                updatedAt = None, acceptedAt = None, acceptedBy = None,
                role = None\<rparr>
        \<and> (docId d', i) \<in> set (invitations db')
        \<and> (docId d', i) \<notin> set (invitations db)
        \<and> getDoc (invitations db') (docId d') = Some i"
      by (intro exI [of _ d'] exI [of _ "newInvitation a invitedBy e d'"]) simp
  qed
  show ?thesis
    using run count each' by (intro exI conjI) (assumption, assumption, blast)
qed

text \<open>The batch of four on the small database.\<close>

theorem sendInvitations_batch_witness:
  "callerIsAdmin coach exampleDb \<and> exampleBatch \<noteq> []
   \<and> distinct (map (docId \<circ> snd) exampleBatch)
   \<and> (docId \<circ> snd) ` set exampleBatch \<inter> fst ` set (invitations exampleDb) = {}
   \<and> fst (sendInvitations (Some coach) exampleBatch None exampleDb) =
       Inr \<lparr>success = [''new@swim.org''],
            failed = [(''swimmer@example.org'', ''Invitation already sent''),
                      (''coach@example.org'', ''User already exists''),
                      (''lost@swim.org'', ''Mailbox unavailable'')]\<rparr>
   \<and> getDoc (invitations (snd (sendInvitations (Some coach) exampleBatch None exampleDb))) ''inv2''
       = Some \<lparr>inv_id = ''inv2'', email = ''new@swim.org'', token = ''ab01'',
               status = ''pending'', createdAt = \<lparr>seconds = 5, nanoseconds = 250000000\<rparr>,
               createdBy = ''coach@example.org'',
               expiresAt = \<lparr>seconds = 604805, nanoseconds = 0\<rparr>,
               updatedAt = None, acceptedAt = None, acceptedBy = None, role = None\<rparr>
   \<and> (\<exists>res db'. sendInvitations (Some coach) exampleBatch None exampleDb = (Inr res, db')
        \<and> mset (success res) + mset (map fst (failed res)) = mset (map fst exampleBatch))"
proof -
  have 1: "callerIsAdmin coach exampleDb"
    by (simp add: callerIsAdmin_def coach_def)
  have 2: "exampleBatch \<noteq> []"
    by (simp add: exampleBatch_def)
  have 3: "distinct (map (docId \<circ> snd) exampleBatch)"
    by (simp add: exampleBatch_def exampleDraw_def bouncedDraw_def)
  have 4: "\<forall>(e, d) \<in> set exampleBatch. docId d \<notin> fst ` set (invitations exampleDb)"
    by (simp add: exampleBatch_def exampleDraw_def bouncedDraw_def exampleDb_def)
  have 5: "fst (sendInvitations (Some coach) exampleBatch None exampleDb) =
       Inr \<lparr>success = [''new@swim.org''],
            failed = [(''swimmer@example.org'', ''Invitation already sent''),
                      (''coach@example.org'', ''User already exists''),
                      (''lost@swim.org'', ''Mailbox unavailable'')]\<rparr>"
    by (simp add: sendInvitations_def callerIsAdmin_def coach_def exampleBatch_def
        processEmail_def userSnapshot_def invitationSnapshot_def queryFirst_def
        exampleDb_def exampleInvitation_def exampleDraw_def bouncedDraw_def
        pushFailed_def pushSuccess_def newInvitation_def Let_def)
  from sendInvitations_batch [OF 1 2 3 4, of None]
  have 6: "\<exists>res db'. sendInvitations (Some coach) exampleBatch None exampleDb = (Inr res, db')
        \<and> mset (success res) + mset (map fst (failed res)) = mset (map fst exampleBatch)"
    by blast
  have 7: "(docId \<circ> snd) ` set exampleBatch \<inter> fst ` set (invitations exampleDb) = {}"
    by (simp add: exampleBatch_def exampleDraw_def bouncedDraw_def exampleDb_def)
  have 8: "getDoc (invitations (snd (sendInvitations (Some coach) exampleBatch None exampleDb))) ''inv2''
       = Some \<lparr>inv_id = ''inv2'', email = ''new@swim.org'', token = ''ab01'',
               status = ''pending'', createdAt = \<lparr>seconds = 5, nanoseconds = 250000000\<rparr>,
               createdBy = ''coach@example.org'',
               expiresAt = \<lparr>seconds = 604805, nanoseconds = 0\<rparr>,
               updatedAt = None, acceptedAt = None, acceptedBy = None, role = None\<rparr>"
    by (simp add: sendInvitations_def callerIsAdmin_def coach_def exampleBatch_def
        processEmail_def userSnapshot_def invitationSnapshot_def queryFirst_def
        exampleDb_def exampleInvitation_def exampleDraw_def bouncedDraw_def
        pushFailed_def pushSuccess_def newInvitation_def Let_def getDoc_def
        generateToken_def toHex_def hexDigit_def fromMillis_def sevenDays_def)
  from 1 2 3 5 6 7 8 show ?thesis by blast
qed

text \<open>
  C8. When the mail transport rejects the message for an email that is not rejected
  by the two checks (no account, no pending invitation, no earlier entry of the batch
  for it), the email is in \<open>failed\<close> with the transport's message, it is not in
  \<open>success\<close>, and the record written before the dispatch is in the store when the
  call returns.
\<close>

theorem sendInvitations_dispatch_failure:
  assumes admin: "callerIsAdmin a db"
    and n: "n < length emails" and at: "emails ! n = (e, d)"
    and first: "e \<notin> fst ` set (take n emails)"
    and nouser: "userSnapshot e db = None" and nopending: "invitationSnapshot e db = None"
    and ids: "distinct (map (docId \<circ> snd) emails)"
    and bounce: "sendMailError d = Some msg"
  shows "\<exists>res db'. sendInvitations (Some a) emails invitedBy db = (Inr res, db')
     \<and> (e, if msg = [] then ''Unknown error'' else msg) \<in> set (failed res)
     \<and> e \<notin> set (success res)
     \<and> (docId d, newInvitation a invitedBy e d) \<in> set (invitations db')
     \<and> getDoc (invitations db') (docId d) = Some (newInvitation a invitedBy e d)"
proof -
  let ?pre = "take n emails" and ?post = "drop (Suc n) emails"
  let ?st0 = "(\<lparr>success = [], failed = []\<rparr>, db)"
  let ?st1 = "processEmails a invitedBy ?st0 ?pre"
  let ?st2 = "processEmail a invitedBy ?st1 (e, d)"
  let ?R = "processEmails a invitedBy ?st0 emails"
  let ?new = "newInvitation a invitedBy e d"
  let ?why = "if msg = [] then ''Unknown error'' else msg"
  have split: "emails = ?pre @ (e, d) # ?post"
    using id_take_nth_drop [OF n] at by simp
  have ne: "emails \<noteq> []" using n by auto
  have R: "?R = processEmails a invitedBy ?st2 ?post"
    by (subst split) (simp add: processEmails_append)
  have later: "docId d \<notin> (docId \<circ> snd) ` set ?post"
    using distinct_split_notin [of "docId \<circ> snd" ?pre "(e, d)" ?post] ids split by simp
  have u1: "userSnapshot e (snd ?st1) = None"
    using nouser userSnapshot_users [OF loop_users, of e a invitedBy ?st0 ?pre] by simp
  have p1: "invitationSnapshot e (snd ?st1) = None"
    using nopending first by (intro loop_no_pending) simp_all
  have s1: "e \<notin> set (success (fst ?st1))"
    using loop_success_subset [of a invitedBy ?st0 ?pre] first by auto
  obtain res1 db1 where st1: "?st1 = (res1, db1)" by (cases ?st1)
  have st2: "processEmail a invitedBy (res1, db1) (e, d) = (pushFailed e ?why res1,
      db1\<lparr>invitations := setDoc (docId d) ?new (invitations db1)\<rparr>)"
    using u1 p1 bounce unfolding st1 by (simp add: processEmail_create)
  have f2: "(e, ?why) \<in> set (failed (fst ?st2))"
    by (simp add: st1 st2 pushFailed_def)
  have s2: "e \<notin> set (success (fst ?st2))"
    using s1 by (simp add: st1 st2 pushFailed_def)
  have m2: "(docId d, ?new) \<in> set (invitations (snd ?st2))"
    by (simp add: st1 st2 setDoc_mem)
  have g2: "getDoc (invitations (snd ?st2)) (docId d) = Some ?new"
    by (simp add: st1 st2 getDoc_setDoc)
  have u2: "userSnapshot e (snd ?st2) = None"
    using u1 userSnapshot_users [OF step_users, of e a invitedBy ?st1 "(e, d)"] by simp
  have failed: "(e, ?why) \<in> set (failed (fst ?R))"
    unfolding R using f2 loop_failed_mono by blast
  have stored: "(docId d, ?new) \<in> set (invitations (snd ?R))"
    unfolding R using m2 later by (rule loop_persist)
  have got: "getDoc (invitations (snd ?R)) (docId d) = Some ?new"
    unfolding R using g2 loop_getDoc [OF later] by simp
  have nosuccess: "e \<notin> set (success (fst ?R))"
    unfolding R
    using loop_pending_rejected [OF m2 _ _ later u2 s2]
    by (simp add: newInvitation_fields)
  show ?thesis
    unfolding sendInvitations_admin [OF admin ne]
    using failed stored got nosuccess by blast
qed

text \<open>The fourth entry of the batch bounces.\<close>

theorem sendInvitations_dispatch_failure_witness:
  "callerIsAdmin coach exampleDb \<and> exampleBatch ! 3 = (''lost@swim.org'', bouncedDraw)
   \<and> sendMailError bouncedDraw = Some ''Mailbox unavailable''
   \<and> (\<exists>res db'. sendInvitations (Some coach) exampleBatch None exampleDb = (Inr res, db')
        \<and> (''lost@swim.org'', ''Mailbox unavailable'') \<in> set (failed res)
        \<and> ''lost@swim.org'' \<notin> set (success res)
        \<and> getDoc (invitations db') ''inv5'' =
              Some (newInvitation coach None ''lost@swim.org'' bouncedDraw))"
proof -
  have 1: "callerIsAdmin coach exampleDb"
    by (simp add: callerIsAdmin_def coach_def)
  have 2: "3 < length exampleBatch" and 3: "exampleBatch ! 3 = (''lost@swim.org'', bouncedDraw)"
    by (simp_all add: exampleBatch_def)
  have 4: "''lost@swim.org'' \<notin> fst ` set (take 3 exampleBatch)"
    by (simp add: exampleBatch_def)
  have 5: "userSnapshot ''lost@swim.org'' exampleDb = None"
    by (simp add: userSnapshot_def queryFirst_def exampleDb_def)
  have 6: "invitationSnapshot ''lost@swim.org'' exampleDb = None"
    by (simp add: invitationSnapshot_def queryFirst_def exampleDb_def exampleInvitation_def)
  have 7: "distinct (map (docId \<circ> snd) exampleBatch)"
    by (simp add: exampleBatch_def exampleDraw_def bouncedDraw_def)
  have 8: "sendMailError bouncedDraw = Some ''Mailbox unavailable''"
    and 9: "docId bouncedDraw = ''inv5''"
    by (simp_all add: bouncedDraw_def)
  from sendInvitations_dispatch_failure [OF 1 2 3 4 5 6 7 8, of None] 1 3 8 9
  show ?thesis by auto
qed

subsection \<open>The records sendInvitations creates\<close>

lemma sendInvitations_new_record:
  assumes "sendInvitations request_auth emails invitedBy db = (Inr res, db')"
    and "(k, i) \<in> set (invitations db')" and "(k, i) \<notin> set (invitations db)"
  shows "\<exists>a. request_auth = Some a
     \<and> (\<exists>(e, d) \<in> set emails. k = docId d \<and> i = newInvitation a invitedBy e d)"
proof -
  from sendInvitations_returns [OF assms(1)] obtain a where a: "request_auth = Some a"
    and db': "db' = snd (processEmails a invitedBy (\<lparr>success = [], failed = []\<rparr>, db) emails)"
    by blast
  from loop_records [of k i a invitedBy "(\<lparr>success = [], failed = []\<rparr>, db)" emails]
    assms(2,3) db'
  have "\<exists>(e, d) \<in> set emails. k = docId d \<and> i = newInvitation a invitedBy e d" by simp
  with a show ?thesis by blast
qed

text \<open>
  C4. A record that \<open>sendInvitations\<close> adds to the store has no \<^verbatim>\<open>role\<close> (nor
  \<^verbatim>\<open>updatedAt\<close>, \<^verbatim>\<open>acceptedAt\<close>, \<^verbatim>\<open>acceptedBy\<close>); it is pending and carries its
  document identifier. So when \<open>verifyInvitation\<close> finds such a record and succeeds,
  the role it returns is \<^verbatim>\<open>'supporter'\<close>.
\<close>

theorem sendInvitations_writes_no_role:
  assumes "sendInvitations request_auth emails invitedBy db = (Inr res, db')"
    and "(k, i) \<in> set (invitations db')" and "(k, i) \<notin> set (invitations db)"
  shows "role i = None \<and> updatedAt i = None \<and> acceptedAt i = None \<and> acceptedBy i = None
     \<and> status i = ''pending'' \<and> inv_id i = k
     \<and> (findPending em tok db' = Some (k, i) \<and> valid (fst (verifyInvitation tok em clock db'))
          \<longrightarrow> fst (verifyInvitation tok em clock db') = Inr (Valid k em ''supporter''))"
proof -
  from sendInvitations_new_record [OF assms] obtain a e d where
    k: "k = docId d" and i: "i = newInvitation a invitedBy e d" by blast
  have fields: "role i = None" "updatedAt i = None" "acceptedAt i = None" "acceptedBy i = None"
    "status i = ''pending''" "inv_id i = k"
    by (simp_all add: i k newInvitation_def)
  have "fst (verifyInvitation tok em clock db') = Inr (Valid k em ''supporter'')"
    if f: "findPending em tok db' = Some (k, i)"
      and v: "valid (fst (verifyInvitation tok em clock db'))"
  proof -
    from f have "pendingMatch em tok i" unfolding findPending_first by blast
    then have em: "email i = em" by (simp add: pendingMatch_def)
    from v have ne: "tok \<noteq> []" "em \<noteq> []"
      by (auto simp: verifyInvitation_def valid_def split: if_splits)
    from v verifyInvitation_match [OF ne f, of clock]
    show ?thesis
      by (auto simp: valid_def fields em roleOrSupporter_def split: if_splits)
  qed
  with fields show ?thesis by blast
qed

text \<open>The new invitation of the batch, verified with its token at 6 s.\<close>

theorem sendInvitations_writes_no_role_witness:
  "fst (sendInvitations (Some coach) exampleBatch None exampleDb) =
       Inr \<lparr>success = [''new@swim.org''],
            failed = [(''swimmer@example.org'', ''Invitation already sent''),
                      (''coach@example.org'', ''User already exists''),
                      (''lost@swim.org'', ''Mailbox unavailable'')]\<rparr>
   \<and> findPending ''new@swim.org'' ''ab01''
        (snd (sendInvitations (Some coach) exampleBatch None exampleDb))
       = Some (''inv2'', newInvitation coach None ''new@swim.org'' exampleDraw)
   \<and> role (newInvitation coach None ''new@swim.org'' exampleDraw) = None
   \<and> fst (verifyInvitation ''ab01'' ''new@swim.org'' 6000
            (snd (sendInvitations (Some coach) exampleBatch None exampleDb)))
       = Inr (Valid ''inv2'' ''new@swim.org'' ''supporter'')"
proof -
  let ?run = "sendInvitations (Some coach) exampleBatch None exampleDb"
  let ?i = "newInvitation coach None ''new@swim.org'' exampleDraw"
  have tok: "generateToken [0xab, 0x01] = ''ab01''" "generateToken [0x7f, 0x10] = ''7f10''"
    by (simp_all add: generateToken_def toHex_def hexDigit_def)
  have db': "invitations (snd ?run) =
      [(''inv1'', exampleInvitation), (''inv2'', ?i),
       (''inv5'', newInvitation coach None ''lost@swim.org'' bouncedDraw)]"
    by (simp add: sendInvitations_def callerIsAdmin_def coach_def exampleBatch_def
        processEmail_def userSnapshot_def invitationSnapshot_def queryFirst_def
        exampleDb_def exampleInvitation_def exampleDraw_def bouncedDraw_def
        pushFailed_def pushSuccess_def newInvitation_def Let_def)
  have res: "fst ?run =
       Inr \<lparr>success = [''new@swim.org''],
            failed = [(''swimmer@example.org'', ''Invitation already sent''),
                      (''coach@example.org'', ''User already exists''),
                      (''lost@swim.org'', ''Mailbox unavailable'')]\<rparr>"
    by (simp add: sendInvitations_def callerIsAdmin_def coach_def exampleBatch_def
        processEmail_def userSnapshot_def invitationSnapshot_def queryFirst_def
        exampleDb_def exampleInvitation_def exampleDraw_def bouncedDraw_def
        pushFailed_def pushSuccess_def newInvitation_def Let_def)
  then have run: "?run = (Inr \<lparr>success = [''new@swim.org''],
            failed = [(''swimmer@example.org'', ''Invitation already sent''),
                      (''coach@example.org'', ''User already exists''),
                      (''lost@swim.org'', ''Mailbox unavailable'')]\<rparr>, snd ?run)"
    by (metis prod.collapse)
  have new: "(''inv2'', ?i) \<in> set (invitations (snd ?run))"
    unfolding db' by simp
  have old: "(''inv2'', ?i) \<notin> set (invitations exampleDb)"
    by (simp add: exampleDb_def)
  have found: "findPending ''new@swim.org'' ''ab01'' (snd ?run) = Some (''inv2'', ?i)"
    unfolding findPending_def db'
    by (simp add: queryFirst_def pendingMatch_def newInvitation_def exampleInvitation_def
        exampleDraw_def tok)
  have v: "valid (fst (verifyInvitation ''ab01'' ''new@swim.org'' 6000 (snd ?run)))"
    using found
    by (simp add: verifyInvitation_def valid_def newInvitation_def fromMillis_def
        exampleDraw_def sevenDays_def)
  from sendInvitations_writes_no_role [OF run new old, of "''new@swim.org''" "''ab01''" 6000]
    found v res
  show ?thesis by simp
qed

subsection \<open>Expiry dates\<close>

lemma fromMillis_sevenDays: "fromMillis (ms + sevenDays) = plusDays (fromMillis ms) 7"
proof -
  have s: "sevenDays = 604800 * 1000" by (simp add: sevenDays_def)
  have d: "(ms + 604800 * 1000) div 1000 = 604800 + ms div 1000" by (rule div_mult_self1) simp
  have m: "(ms + 604800 * 1000) mod 1000 = ms mod 1000" by (rule mod_mult_self1)
  show ?thesis unfolding fromMillis_def plusDays_def s d m by simp
qed

lemma before_fromMillis:
  assumes "t0 < t1"
  shows "before (fromMillis t0) (fromMillis t1)"
proof -
  have le: "t0 div 1000 \<le> t1 div 1000" using assms by (simp add: zdiv_mono1)
  have "t0 mod 1000 < t1 mod 1000" if "t0 div 1000 = t1 div 1000"
  proof -
    have "t0 = 1000 * (t0 div 1000) + t0 mod 1000" "t1 = 1000 * (t1 div 1000) + t1 mod 1000"
      by simp_all
    with that assms show ?thesis by linarith
  qed
  with le show ?thesis by (auto simp: before_def fromMillis_def)
qed

lemma before_plusDays: "before (plusDays a n) (plusDays b n) \<longleftrightarrow> before a b"
  by (simp add: before_def plusDays_def)

text \<open>
  C6, as stated, fails: \<^verbatim>\<open>expiresAt\<close> is computed from \<^verbatim>\<open>Date.now()\<close> in the function,
  \<^verbatim>\<open>createdAt\<close> is \<^verbatim>\<open>FieldValue.serverTimestamp()\<close>, which the store's server fills in
  when it commits the write. With the function's clock at 5 s and the write stamped at
  5.25 s, the new record's \<^verbatim>\<open>expiresAt\<close> is not its \<^verbatim>\<open>createdAt\<close> plus seven days.
\<close>

theorem sendInvitations_createdAt_is_server_time:
  "map_option (\<lambda>i. expiresAt i = plusDays (createdAt i) 7)
     (getDoc (invitations (snd (sendInvitations (Some coach) [(''new@swim.org'', exampleDraw)]
                                  None exampleDb))) ''inv2'')
   = Some False"
  by (simp add: sendInvitations_def callerIsAdmin_def coach_def
      processEmail_def userSnapshot_def invitationSnapshot_def queryFirst_def
      exampleDb_def exampleInvitation_def exampleDraw_def
      pushFailed_def pushSuccess_def newInvitation_def Let_def getDoc_def
      plusDays_def fromMillis_def sevenDays_def)

text \<open>
  C6, amended. Every record \<open>sendInvitations\<close> adds was written by the loop iteration
  of an entry of the batch, under the identifier generated in that iteration and for
  that entry's email; its \<^verbatim>\<open>expiresAt\<close> is the \<^verbatim>\<open>Date.now()\<close> reading of that
  iteration plus seven days, and its \<^verbatim>\<open>createdAt\<close> is the server's timestamp of that
  write. After a successful \<open>resendInvitation\<close> the
  \<^verbatim>\<open>expiresAt\<close> of the record is the \<^verbatim>\<open>Date.now()\<close> reading of the resend plus seven
  days, strictly later than an earlier \<^verbatim>\<open>expiresAt\<close> that was computed from an
  earlier reading.
\<close>

theorem expiresAt_seven_days_after_clock:
  "(sendInvitations request_auth emails invitedBy db = (Inr res, db')
      \<and> (k, i) \<in> set (invitations db') \<and> (k, i) \<notin> set (invitations db) \<longrightarrow>
      (\<exists>(e, d) \<in> set emails.
          k = docId d \<and> inv_id i = docId d \<and> email i = e
          \<and> expiresAt i = plusDays (fromMillis (dateNow d)) 7
          \<and> createdAt i = serverTimestamp d))
   \<and> (resendInvitation request_auth' invitationId d' db1 = (Inr True, db1')
      \<and> getDoc (invitations db1) invitationId = Some i1 \<longrightarrow>
      map_option expiresAt (getDoc (invitations db1') invitationId)
        = Some (plusDays (fromMillis (dateNow d')) 7)
      \<and> (expiresAt i1 = plusDays (fromMillis t0) 7 \<and> t0 < dateNow d' \<longrightarrow>
           before (expiresAt i1) (plusDays (fromMillis (dateNow d')) 7)))"
proof (intro conjI impI)
  assume "sendInvitations request_auth emails invitedBy db = (Inr res, db')
      \<and> (k, i) \<in> set (invitations db') \<and> (k, i) \<notin> set (invitations db)"
  then obtain a where "\<exists>(e, d) \<in> set emails. k = docId d \<and> i = newInvitation a invitedBy e d"
    using sendInvitations_new_record by blast
  then obtain e d where ed: "(e, d) \<in> set emails" and k: "k = docId d"
    and i: "i = newInvitation a invitedBy e d"
    by blast
  have "k = docId d \<and> inv_id i = docId d \<and> email i = e
      \<and> expiresAt i = plusDays (fromMillis (dateNow d)) 7 \<and> createdAt i = serverTimestamp d"
    by (simp add: i k newInvitation_fields fromMillis_sevenDays)
  with ed show "\<exists>(e, d) \<in> set emails.
      k = docId d \<and> inv_id i = docId d \<and> email i = e
      \<and> expiresAt i = plusDays (fromMillis (dateNow d)) 7 \<and> createdAt i = serverTimestamp d"
    by blast
next
  assume "resendInvitation request_auth' invitationId d' db1 = (Inr True, db1')
      \<and> getDoc (invitations db1) invitationId = Some i1"
  then have ok: "resendInvitation request_auth' invitationId d' db1 = (Inr True, db1')"
    and i1: "getDoc (invitations db1) invitationId = Some i1" by simp_all
  from resendInvitation_success [OF ok]
  show "map_option expiresAt (getDoc (invitations db1') invitationId)
        = Some (plusDays (fromMillis (dateNow d')) 7)"
    using i1 by (auto simp: getDoc_updateDoc fromMillis_sevenDays)
next
  assume "expiresAt i1 = plusDays (fromMillis t0) 7 \<and> t0 < dateNow d'"
  then show "before (expiresAt i1) (plusDays (fromMillis (dateNow d')) 7)"
    by (simp add: before_plusDays before_fromMillis)
qed

text \<open>
  Two new invitations sent in one batch, at 5 s and at 9 s, and the invitation of the
  small database resent at 5 s.
\<close>

theorem expiresAt_seven_days_after_clock_witness:
  "fst (sendInvitations (Some coach)
          [(''new@swim.org'', exampleDraw), (''late@swim.org'', laterDraw)] None exampleDb)
     = Inr \<lparr>success = [''new@swim.org'', ''late@swim.org''], failed = []\<rparr>
   \<and> map_option expiresAt
        (getDoc (invitations (snd (sendInvitations (Some coach)
           [(''new@swim.org'', exampleDraw), (''late@swim.org'', laterDraw)] None exampleDb)))
           ''inv2'') = Some \<lparr>seconds = 604805, nanoseconds = 0\<rparr>
   \<and> map_option expiresAt
        (getDoc (invitations (snd (sendInvitations (Some coach)
           [(''new@swim.org'', exampleDraw), (''late@swim.org'', laterDraw)] None exampleDb)))
           ''inv6'') = Some \<lparr>seconds = 604809, nanoseconds = 0\<rparr>
   \<and> map_option createdAt
        (getDoc (invitations (snd (sendInvitations (Some coach)
           [(''new@swim.org'', exampleDraw), (''late@swim.org'', laterDraw)] None exampleDb)))
           ''inv6'') = Some \<lparr>seconds = 9, nanoseconds = 100000000\<rparr>
   \<and> expiresAt (newInvitation coach None ''late@swim.org'' laterDraw)
       = plusDays (fromMillis 9000) 7
   \<and> fst (resendInvitation (Some coach) ''inv1'' exampleDraw exampleDb) = Inr True
   \<and> map_option expiresAt
        (getDoc (invitations (snd (resendInvitation (Some coach) ''inv1'' exampleDraw exampleDb)))
           ''inv1'') = Some (plusDays (fromMillis 5000) 7)
   \<and> before (expiresAt exampleInvitation) (plusDays (fromMillis 5000) 7)"
proof -
  let ?batch = "[(''new@swim.org'', exampleDraw), (''late@swim.org'', laterDraw)]"
  let ?send = "sendInvitations (Some coach) ?batch None exampleDb"
  let ?resend = "resendInvitation (Some coach) ''inv1'' exampleDraw exampleDb"
  let ?i = "newInvitation coach None ''late@swim.org'' laterDraw"
  have sendf: "fst ?send = Inr \<lparr>success = [''new@swim.org'', ''late@swim.org''], failed = []\<rparr>"
    by (simp add: sendInvitations_def callerIsAdmin_def coach_def
        processEmail_def userSnapshot_def invitationSnapshot_def queryFirst_def
        exampleDb_def exampleInvitation_def exampleDraw_def laterDraw_def pushSuccess_def
        newInvitation_def Let_def)
  then have send: "?send = (Inr \<lparr>success = [''new@swim.org'', ''late@swim.org''], failed = []\<rparr>,
      snd ?send)"
    by (metis prod.collapse)
  have store: "invitations (snd ?send) =
      [(''inv1'', exampleInvitation),
       (''inv2'', newInvitation coach None ''new@swim.org'' exampleDraw),
       (''inv6'', ?i)]"
    by (simp add: sendInvitations_def callerIsAdmin_def coach_def
        processEmail_def userSnapshot_def invitationSnapshot_def queryFirst_def
        exampleDb_def exampleInvitation_def exampleDraw_def laterDraw_def pushSuccess_def
        newInvitation_def Let_def)
  have new: "(''inv6'', ?i) \<in> set (invitations (snd ?send))"
    unfolding store by simp
  have old: "(''inv6'', ?i) \<notin> set (invitations exampleDb)"
    by (simp add: exampleDb_def)
  have e2: "map_option expiresAt (getDoc (invitations (snd ?send)) ''inv2'')
      = Some \<lparr>seconds = 604805, nanoseconds = 0\<rparr>"
    unfolding store
    by (simp add: getDoc_def newInvitation_def exampleDraw_def fromMillis_def sevenDays_def)
  have e6: "map_option expiresAt (getDoc (invitations (snd ?send)) ''inv6'')
      = Some \<lparr>seconds = 604809, nanoseconds = 0\<rparr>"
    unfolding store
    by (simp add: getDoc_def newInvitation_def laterDraw_def fromMillis_def sevenDays_def)
  have c6: "map_option createdAt (getDoc (invitations (snd ?send)) ''inv6'')
      = Some \<lparr>seconds = 9, nanoseconds = 100000000\<rparr>"
    unfolding store
    by (simp add: getDoc_def newInvitation_def laterDraw_def fromMillis_def)
  have resendf: "fst ?resend = Inr True"
    by (simp add: resendInvitation_def callerIsAdmin_def coach_def exampleDb_def
        exampleInvitation_def exampleDraw_def getDoc_def)
  then have resend: "?resend = (Inr True, snd ?resend)"
    by (metis prod.collapse)
  have get: "getDoc (invitations exampleDb) ''inv1'' = Some exampleInvitation"
    by (simp add: getDoc_def exampleDb_def)
  have orig: "expiresAt exampleInvitation = plusDays (fromMillis (100200 - sevenDays)) 7"
    by (simp add: exampleInvitation_def plusDays_def fromMillis_def sevenDays_def)
  have earlier: "100200 - sevenDays < dateNow exampleDraw"
    by (simp add: exampleDraw_def sevenDays_def)
  have now: "dateNow exampleDraw = 5000"
    by (simp add: exampleDraw_def)
  have ids: "docId exampleDraw \<noteq> ''inv6''" "docId laterDraw = ''inv6''" "dateNow laterDraw = 9000"
    by (simp_all add: exampleDraw_def laterDraw_def)
  note both = expiresAt_seven_days_after_clock [of "Some coach" ?batch None
      exampleDb "\<lparr>success = [''new@swim.org'', ''late@swim.org''], failed = []\<rparr>"
      "snd ?send" "''inv6''" ?i
      "Some coach" "''inv1''" exampleDraw exampleDb "snd ?resend" exampleInvitation
      "100200 - sevenDays"]
  from both [THEN conjunct1] send new old ids
  have x6: "expiresAt ?i = plusDays (fromMillis 9000) 7"
    by auto
  from both [THEN conjunct2] resend get orig earlier
  have r: "map_option expiresAt (getDoc (invitations (snd ?resend)) ''inv1'')
        = Some (plusDays (fromMillis 5000) 7)"
    and b: "before (expiresAt exampleInvitation) (plusDays (fromMillis 5000) 7)"
    by (simp_all add: now)
  from sendf e2 e6 c6 x6 resendf r b show ?thesis by blast
qed

subsection \<open>Authorization failures\<close>

lemma unauthorized_send:
  assumes "\<not> authorized r db"
  shows "sendInvitations r emails invitedBy db =
     (Inl (Error (case r of
                    None \<Rightarrow> ''Unauthorized: You must be logged in to send invitations''
                  | Some a \<Rightarrow> ''Failed to send invitations: Unauthorized: Only admins can send invitations'')),
      db)"
  using assms by (cases r) (simp_all add: authorized_def sendInvitations_def)

lemma unauthorized_resend:
  assumes "\<not> authorized r db"
  shows "resendInvitation r invitationId d db =
     (Inl (Error (case r of
                    None \<Rightarrow> ''Unauthorized: You must be logged in to resend invitations''
                  | Some a \<Rightarrow> ''Failed to resend invitation: Unauthorized: Only admins can resend invitations'')),
      db)"
  using assms by (cases r) (simp_all add: authorized_def resendInvitation_def)

lemma unauthorized_delete:
  assumes "\<not> authorized r db"
  shows "deleteInvitation r invitationId db =
     (Inl (Error (case r of
                    None \<Rightarrow> ''Unauthorized: You must be logged in to delete invitations''
                  | Some a \<Rightarrow> ''Failed to delete invitation: Unauthorized: Only admins can delete invitations'')),
      db)"
  using assms by (cases r) (simp_all add: authorized_def deleteInvitation_def)

lemma unauthorized_get:
  assumes "\<not> authorized r db"
  shows "getInvitations r db =
     (Inl (Error (case r of
                    None \<Rightarrow> ''Unauthorized: You must be logged in to view invitations''
                  | Some a \<Rightarrow> ''Failed to get invitations: Unauthorized: Only admins can view invitations'')),
      db)"
  using assms by (cases r) (simp_all add: authorized_def getInvitations_def)

lemma onCall_Inl: "onCall (Inl err) = Inl \<lparr>error_code = ''internal'', error_message = ''INTERNAL''\<rparr>"
  by (simp add: onCall_def)

lemma errorClass_Error: "errorClass (Inl (Error msg)) = Some ''Error''"
  by (simp add: errorClass_def)

lemma resendInvitation_outcomes:
  "fst (resendInvitation r invitationId d db) = Inr True
   \<or> (\<exists>msg. fst (resendInvitation r invitationId d db) = Inl (Error msg))"
  by (auto simp: resendInvitation_def rethrow_def Let_def split: option.splits)

lemma acceptInvitation_outcomes:
  "fst (acceptInvitation invitationId userId clock serverTime db) = Inr True
   \<or> (\<exists>msg. fst (acceptInvitation invitationId userId clock serverTime db) = Inl (Error msg))"
  by (auto simp: acceptInvitation_def rethrow_def split: option.splits)

text \<open>
  C9, as stated, fails: the source has one error class. A resend by a caller who is
  not an administrator and a resend of an identifier that does not exist both end in
  an \<^verbatim>\<open>Error\<close>; only the messages differ.
\<close>

theorem unauthorized_same_class:
  "errorClass (fst (resendInvitation (Some parent) ''inv1'' exampleDraw exampleDb))
     = errorClass (fst (resendInvitation (Some coach) ''nope'' exampleDraw exampleDb))
   \<and> fst (resendInvitation (Some parent) ''inv1'' exampleDraw exampleDb)
       = Inl \<lparr>name = ''Error'',
              message = ''Failed to resend invitation: Unauthorized: Only admins can resend invitations''\<rparr>
   \<and> fst (resendInvitation (Some coach) ''nope'' exampleDraw exampleDb)
       = Inl \<lparr>name = ''Error'', message = ''Failed to resend invitation: Invitation not found''\<rparr>"
  by (simp add: resendInvitation_def callerIsAdmin_def parent_def coach_def exampleDb_def
      getDoc_def errorClass_def Error_def)

text \<open>
  C9, amended. For every administrative function, a call by a caller who is not an
  authorized administrator leaves the store unchanged and its handler throws a plain
  \<^verbatim>\<open>Error\<close>, with the message ``Unauthorized: You must be logged in \<dots>'' for a call
  without authentication and ``Failed to \<dots>: Unauthorized: Only admins can \<dots>''
  otherwise. Every failure of \<open>resendInvitation\<close> and of \<open>acceptInvitation\<close> (not found,
  invalid state, expired, invalid request) is an \<^verbatim>\<open>Error\<close> of that same class. As no
  handler throws an \<^verbatim>\<open>HttpsError\<close>, the caller of the function receives the same
  answer, the error \<^verbatim>\<open>internal\<close>, for an authorization failure and for each of those
  failures: the authorization failure is set apart only in the message of the error
  the handler throws, not in what is reported to the caller.
\<close>

theorem unauthorized_reported_as_internal:
  assumes unauth: "\<not> authorized r db"
  shows "(sendInvitations r emails invitedBy db =
            (Inl (Error (case r of
                 None \<Rightarrow> ''Unauthorized: You must be logged in to send invitations''
               | Some a \<Rightarrow> ''Failed to send invitations: Unauthorized: Only admins can send invitations'')),
             db)
        \<and> onCall (fst (sendInvitations r emails invitedBy db))
            = Inl \<lparr>error_code = ''internal'', error_message = ''INTERNAL''\<rparr>)
     \<and> (resendInvitation r invitationId d db =
            (Inl (Error (case r of
                 None \<Rightarrow> ''Unauthorized: You must be logged in to resend invitations''
               | Some a \<Rightarrow> ''Failed to resend invitation: Unauthorized: Only admins can resend invitations'')),
             db)
        \<and> onCall (fst (resendInvitation r invitationId d db))
            = Inl \<lparr>error_code = ''internal'', error_message = ''INTERNAL''\<rparr>)
     \<and> (deleteInvitation r invitationId db =
            (Inl (Error (case r of
                 None \<Rightarrow> ''Unauthorized: You must be logged in to delete invitations''
               | Some a \<Rightarrow> ''Failed to delete invitation: Unauthorized: Only admins can delete invitations'')),
             db)
        \<and> onCall (fst (deleteInvitation r invitationId db))
            = Inl \<lparr>error_code = ''internal'', error_message = ''INTERNAL''\<rparr>)
     \<and> (getInvitations r db =
            (Inl (Error (case r of
                 None \<Rightarrow> ''Unauthorized: You must be logged in to view invitations''
               | Some a \<Rightarrow> ''Failed to get invitations: Unauthorized: Only admins can view invitations'')),
             db)
        \<and> onCall (fst (getInvitations r db))
            = Inl \<lparr>error_code = ''internal'', error_message = ''INTERNAL''\<rparr>)
     \<and> (fst (resendInvitation r' invitationId' d' db') \<noteq> Inr True \<longrightarrow>
          errorClass (fst (resendInvitation r' invitationId' d' db'))
            = errorClass (fst (resendInvitation r invitationId d db))
          \<and> onCall (fst (resendInvitation r' invitationId' d' db'))
            = onCall (fst (resendInvitation r invitationId d db)))
     \<and> (fst (acceptInvitation invitationId' userId' clock' serverTime' db') \<noteq> Inr True \<longrightarrow>
          errorClass (fst (acceptInvitation invitationId' userId' clock' serverTime' db'))
            = errorClass (fst (resendInvitation r invitationId d db))
          \<and> onCall (fst (acceptInvitation invitationId' userId' clock' serverTime' db'))
            = onCall (fst (resendInvitation r invitationId d db)))"
proof -
  note send = unauthorized_send [OF unauth, of emails invitedBy]
  note resend = unauthorized_resend [OF unauth, of invitationId d]
  note delete = unauthorized_delete [OF unauth, of invitationId]
  note get = unauthorized_get [OF unauth]
  have 1: "onCall (fst (sendInvitations r emails invitedBy db))
      = Inl \<lparr>error_code = ''internal'', error_message = ''INTERNAL''\<rparr>"
    by (simp add: send onCall_Inl)
  have 2: "onCall (fst (resendInvitation r invitationId d db))
      = Inl \<lparr>error_code = ''internal'', error_message = ''INTERNAL''\<rparr>"
    by (simp add: resend onCall_Inl)
  have 3: "onCall (fst (deleteInvitation r invitationId db))
      = Inl \<lparr>error_code = ''internal'', error_message = ''INTERNAL''\<rparr>"
    by (simp add: delete onCall_Inl)
  have 4: "onCall (fst (getInvitations r db))
      = Inl \<lparr>error_code = ''internal'', error_message = ''INTERNAL''\<rparr>"
    by (simp add: get onCall_Inl)
  have cls: "errorClass (fst (resendInvitation r invitationId d db)) = Some ''Error''"
    by (simp add: resend errorClass_Error)
  have 5: "errorClass (fst (resendInvitation r' invitationId' d' db'))
            = errorClass (fst (resendInvitation r invitationId d db))
          \<and> onCall (fst (resendInvitation r' invitationId' d' db'))
            = onCall (fst (resendInvitation r invitationId d db))"
    if "fst (resendInvitation r' invitationId' d' db') \<noteq> Inr True"
  proof -
    from that resendInvitation_outcomes [of r' invitationId' d' db']
    obtain msg where "fst (resendInvitation r' invitationId' d' db') = Inl (Error msg)"
      by blast
    then show ?thesis by (simp add: cls 2 errorClass_Error onCall_Inl)
  qed
  have 6: "errorClass (fst (acceptInvitation invitationId' userId' clock' serverTime' db'))
            = errorClass (fst (resendInvitation r invitationId d db))
          \<and> onCall (fst (acceptInvitation invitationId' userId' clock' serverTime' db'))
            = onCall (fst (resendInvitation r invitationId d db))"
    if "fst (acceptInvitation invitationId' userId' clock' serverTime' db') \<noteq> Inr True"
  proof -
    from that acceptInvitation_outcomes [of invitationId' userId' clock' serverTime' db']
    obtain msg where "fst (acceptInvitation invitationId' userId' clock' serverTime' db')
        = Inl (Error msg)"
      by blast
    then show ?thesis by (simp add: cls 2 errorClass_Error onCall_Inl)
  qed
  from send resend delete get 1 2 3 4 5 6 show ?thesis by blast
qed

text \<open>
  A parent resends the invitation of the small database; the coach resends one that
  does not exist; somebody accepts one that does not exist.
\<close>

theorem unauthorized_reported_as_internal_witness:
  "\<not> authorized (Some parent) exampleDb
   \<and> resendInvitation (Some parent) ''inv1'' exampleDraw exampleDb
       = (Inl (Error ''Failed to resend invitation: Unauthorized: Only admins can resend invitations''),
          exampleDb)
   \<and> fst (resendInvitation (Some coach) ''nope'' exampleDraw exampleDb)
       = Inl (Error ''Failed to resend invitation: Invitation not found'')
   \<and> fst (acceptInvitation ''nope'' ''uid123'' 5000 (fromMillis 5250) exampleDb)
       = Inl (Error ''Failed to accept invitation: Invitation not found'')
   \<and> onCall (fst (resendInvitation (Some parent) ''inv1'' exampleDraw exampleDb))
       = Inl \<lparr>error_code = ''internal'', error_message = ''INTERNAL''\<rparr>
   \<and> onCall (fst (resendInvitation (Some coach) ''nope'' exampleDraw exampleDb))
       = onCall (fst (resendInvitation (Some parent) ''inv1'' exampleDraw exampleDb))
   \<and> onCall (fst (acceptInvitation ''nope'' ''uid123'' 5000 (fromMillis 5250) exampleDb))
       = onCall (fst (resendInvitation (Some parent) ''inv1'' exampleDraw exampleDb))"
proof -
  have 1: "\<not> authorized (Some parent) exampleDb"
    by (simp add: authorized_def callerIsAdmin_def parent_def exampleDb_def getDoc_def)
  have 2: "fst (resendInvitation (Some coach) ''nope'' exampleDraw exampleDb)
       = Inl (Error ''Failed to resend invitation: Invitation not found'')"
    by (simp add: resendInvitation_def callerIsAdmin_def coach_def exampleDb_def getDoc_def)
  have 3: "fst (acceptInvitation ''nope'' ''uid123'' 5000 (fromMillis 5250) exampleDb)
       = Inl (Error ''Failed to accept invitation: Invitation not found'')"
    by (simp add: acceptInvitation_def exampleDb_def getDoc_def)
  note all = unauthorized_reported_as_internal [OF 1, where invitationId = "''inv1''"
      and d = exampleDraw and r' = "Some coach" and invitationId' = "''nope''"
      and d' = exampleDraw and db' = exampleDb and userId' = "''uid123''" and clock' = 5000
      and serverTime' = "fromMillis 5250"]
  have 4: "resendInvitation (Some parent) ''inv1'' exampleDraw exampleDb
       = (Inl (Error ''Failed to resend invitation: Unauthorized: Only admins can resend invitations''),
          exampleDb)"
    using all [THEN conjunct2, THEN conjunct1, THEN conjunct1] by simp
  have 5: "onCall (fst (resendInvitation (Some parent) ''inv1'' exampleDraw exampleDb))
       = Inl \<lparr>error_code = ''internal'', error_message = ''INTERNAL''\<rparr>"
    using all [THEN conjunct2, THEN conjunct1, THEN conjunct2] .
  have 6: "onCall (fst (resendInvitation (Some coach) ''nope'' exampleDraw exampleDb))
       = onCall (fst (resendInvitation (Some parent) ''inv1'' exampleDraw exampleDb))"
    using all [THEN conjunct2, THEN conjunct2, THEN conjunct2, THEN conjunct2, THEN conjunct1]
      2 by simp
  have 7: "onCall (fst (acceptInvitation ''nope'' ''uid123'' 5000 (fromMillis 5250) exampleDb))
       = onCall (fst (resendInvitation (Some parent) ''inv1'' exampleDraw exampleDb))"
    using all [THEN conjunct2, THEN conjunct2, THEN conjunct2, THEN conjunct2, THEN conjunct2]
      3 by simp
  from 1 2 3 4 5 6 7 show ?thesis by blast
qed

end
